theory Spec2Isabelle
  imports Complex_Main "HOL-Library.AList" "HOL-Library.Sublist"
begin

section \<open>Python string primitives used by the retrieval orchestrator\<close>

text \<open>
  Strings are byte lists. Only the ASCII behaviour of \<^verbatim>\<open>str.strip\<close>,
  \<^verbatim>\<open>str.split\<close>, \<^verbatim>\<open>str.lower\<close> and \<^verbatim>\<open>str.title\<close> is modelled; Unicode
  whitespace and case mappings beyond ASCII are outside the model.
\<close>

definition nl :: char where
  "nl = CHR 0x0A"

definition py_isspace :: "char \<Rightarrow> bool" where
  "py_isspace c = (c \<in> set [CHR 0x09, CHR 0x0A, CHR 0x0B, CHR 0x0C, CHR 0x0D,
                              CHR 0x1C, CHR 0x1D, CHR 0x1E, CHR 0x1F, CHR 0x20])"

definition strip :: "string \<Rightarrow> string" where
  "strip s = rev (dropWhile py_isspace (rev (dropWhile py_isspace s)))"

text \<open>\<^verbatim>\<open>s.split(sep)\<close> for a one-character separator: always at least one piece.\<close>

fun split_char :: "char \<Rightarrow> string \<Rightarrow> string list" where
  "split_char sep [] = [[]]"
| "split_char sep (c # cs) =
     (if c = sep then [] # split_char sep cs
      else (case split_char sep cs of
              [] \<Rightarrow> [[c]]
            | w # ws \<Rightarrow> (c # w) # ws))"

text \<open>\<^verbatim>\<open>s.split()\<close>: maximal runs of non-whitespace characters.\<close>

function split_ws :: "string \<Rightarrow> string list" where
  "split_ws [] = []"
| "split_ws (c # cs) =
     (if py_isspace c then split_ws cs
      else takeWhile (\<lambda>x. \<not> py_isspace x) (c # cs)
             # split_ws (dropWhile (\<lambda>x. \<not> py_isspace x) cs))"
  by pat_completeness auto
termination
  by (relation "measure length") (auto simp: length_dropWhile_le less_Suc_eq_le)

fun py_join :: "string \<Rightarrow> string list \<Rightarrow> string" where
  "py_join sep [] = []"
| "py_join sep [x] = x"
| "py_join sep (x # y # ys) = x @ sep @ py_join sep (y # ys)"

text \<open>\<^verbatim>\<open>sub in s\<close> on strings.\<close>

fun contains_str :: "string \<Rightarrow> string \<Rightarrow> bool" where
  "contains_str sub [] = (sub = [])"
| "contains_str sub (c # cs) = (prefix sub (c # cs) \<or> contains_str sub cs)"

definition ascii_lowercase :: string where
  "ascii_lowercase = ''abcdefghijklmnopqrstuvwxyz''"

definition ascii_uppercase :: string where
  "ascii_uppercase = ''ABCDEFGHIJKLMNOPQRSTUVWXYZ''"

definition digits :: string where
  "digits = ''0123456789''"

definition is_ascii_lower :: "char \<Rightarrow> bool" where
  "is_ascii_lower c = (c \<in> set ascii_lowercase)"

definition is_ascii_upper :: "char \<Rightarrow> bool" where
  "is_ascii_upper c = (c \<in> set ascii_uppercase)"

definition is_digit :: "char \<Rightarrow> bool" where
  "is_digit c = (c \<in> set digits)"

definition to_lower :: "char \<Rightarrow> char" where
  "to_lower c = (case map_of (zip ascii_uppercase ascii_lowercase) c of None \<Rightarrow> c | Some l \<Rightarrow> l)"

definition to_upper :: "char \<Rightarrow> char" where
  "to_upper c = (case map_of (zip ascii_lowercase ascii_uppercase) c of None \<Rightarrow> c | Some u \<Rightarrow> u)"

definition lower :: "string \<Rightarrow> string" where
  "lower s = map to_lower s"

text \<open>\<^verbatim>\<open>str.title\<close>: a cased character is upper-cased when the previous character is
  not cased and lower-cased otherwise.\<close>

fun title_from :: "bool \<Rightarrow> string \<Rightarrow> string" where
  "title_from prev_cased [] = []"
| "title_from prev_cased (c # cs) =
     (if is_ascii_lower c then (if prev_cased then c else to_upper c) # title_from True cs
      else if is_ascii_upper c then (if prev_cased then to_lower c else c) # title_from True cs
      else c # title_from False cs)"

definition title :: "string \<Rightarrow> string" where
  "title s = title_from False s"

text \<open>\<^verbatim>\<open>str(n)\<close> for a non-negative integer.\<close>

fun str_of_nat :: "nat \<Rightarrow> string" where
  "str_of_nat n =
     (if n < 10 then [digits ! n]
      else str_of_nat (n div 10) @ [digits ! (n mod 10)])"

declare str_of_nat.simps [simp del]

section \<open>Data model\<close>

text \<open>
  Floating-point numbers are modelled as exact reals: similarities, fused scores and
  relevance scores carry no rounding. The cosine similarity itself
  (\<^verbatim>\<open>np.dot(a, b) / (np.linalg.norm(a) * np.linalg.norm(b) + 1e-8)\<close>) is not computed in
  the model; it is the parameter \<open>cos_sim\<close> of the services below.
\<close>

type_synonym embedding = "real list"

text \<open>A page marker is an integer page number or a textual label.\<close>

datatype page = PageNo nat | PageLabel string

text \<open>An image reference as stored under \<^verbatim>\<open>related_images\<close>. A field that is
  \<^verbatim>\<open>None\<close> here is absent from the dictionary (or holds \<^verbatim>\<open>None\<close>).\<close>

record image =
  i_image_path :: "string option"
  i_path :: "string option"
  i_clip_embedding :: "embedding option"
  i_page_label :: "page option"
  i_page :: "page option"
  i_ocr_text :: "string option"
  i_score :: "real option"

text \<open>A unified node of the catalogue. \<open>d_id\<close> is \<^verbatim>\<open>str(doc["_id"])\<close> when the key is
  there; \<open>d_fields\<close> holds the remaining string-valued scalar fields.\<close>

record doc =
  d_id :: "string option"
  d_combined_text :: "string option"
  d_category :: "string option"
  d_page :: "page option"
  d_embedding :: "embedding option"
  d_related_images :: "image list option"
  d_fields :: "(string \<times> string) list"

text \<open>The formatted image entry returned to the caller.\<close>

record out_image =
  o_image_path :: string
  o_page :: page
  o_pdf :: string
  o_pdf_url :: string
  o_ocr_text :: string
  o_score :: real

datatype collection = Embeddings_v1 | Image_embeddings | Unified_nodes

text \<open>The parameters of one \<^verbatim>\<open>$vectorSearch\<close> stage.\<close>

record search_params =
  sp_index :: string
  sp_path :: string
  sp_queryVector :: embedding
  sp_numCandidates :: nat
  sp_limit :: nat
  sp_filter :: "(string \<times> string) list option"

datatype exn = OperationFailure string | OtherError string

fun exn_str :: "exn \<Rightarrow> string" where
  "exn_str (OperationFailure m) = m"
| "exn_str (OtherError m) = m"

datatype llm_use = Paraphrase | Score | Rewrite | Entities | Draft

text \<open>
  Every call that leaves the process, and every entry into a text or image retrieval, is
  appended to a trace. The trace is the observable behaviour the properties below speak
  about; the external services may answer depending on everything that happened before.
\<close>

datatype event =
    LLMCall llm_use string
  | ChainCall string string
  | Aggregate collection search_params
  | CtxSearch string nat "string option"
  | ImgSearch string "string option" nat "doc list option"

text \<open>
  What the engine calls and does not own: the generator (\<^verbatim>\<open>self.llm.invoke(prompt).content\<close>
  and \<^verbatim>\<open>self.chain.invoke\<close>, either of which may raise), the backend's
  \<^verbatim>\<open>collection.aggregate\<close> on a one-stage \<^verbatim>\<open>$vectorSearch\<close> pipeline (which may raise), the
  two embedding functions and the cosine similarity. The first three see the trace so far.
\<close>

record services =
  llm_invoke :: "event list \<Rightarrow> string \<Rightarrow> exn + string"
  chain_invoke :: "event list \<Rightarrow> string \<Rightarrow> string \<Rightarrow> exn + string"
  aggregate :: "event list \<Rightarrow> collection \<Rightarrow> search_params \<Rightarrow> exn + doc list"
  get_embeddings :: "string \<Rightarrow> embedding"
  get_clip_text_embedding :: "string \<Rightarrow> embedding"
  cos_sim :: "embedding \<Rightarrow> embedding \<Rightarrow> real"

text \<open>The mutable state of a running engine: the capability registry of its database
  handler and the trace.\<close>

record state =
  broken_filters :: "string set"
  trace :: "event list"

type_synonym 'a comp = "state \<Rightarrow> (exn + 'a) \<times> state"

definition returnE :: "'a \<Rightarrow> 'a comp" where
  "returnE x s = (Inr x, s)"

definition bindE :: "'a comp \<Rightarrow> ('a \<Rightarrow> 'b comp) \<Rightarrow> 'b comp" where
  "bindE m f s = (case m s of (Inl e, s') \<Rightarrow> (Inl e, s') | (Inr x, s') \<Rightarrow> f x s')"

definition record_event :: "event \<Rightarrow> state \<Rightarrow> state" where
  "record_event ev s = s\<lparr>trace := trace s @ [ev]\<rparr>"

section \<open>database.py: the resilient search client\<close>

definition init_handler :: state where
  "init_handler = \<lparr>broken_filters = {''category''}, trace = []\<rparr>"

definition run_aggregate :: "services \<Rightarrow> collection \<Rightarrow> search_params \<Rightarrow> doc list comp" where
  "run_aggregate sv coll p s = (aggregate sv (trace s) coll p, record_event (Aggregate coll p) s)"

text \<open>\<^verbatim>\<open>doc.get(k)\<close> restricted to the string-valued fields a filter value can equal.\<close>

definition doc_get :: "doc \<Rightarrow> string \<Rightarrow> string option" where
  "doc_get d k =
     (if k = ''category'' then d_category d
      else if k = ''combined_text'' then d_combined_text d
      else map_of (d_fields d) k)"

definition matches_filter :: "(string \<times> string) list \<Rightarrow> doc \<Rightarrow> bool" where
  "matches_filter fd d = list_all (\<lambda>kv. doc_get d (fst kv) = Some (snd kv)) fd"

definition manual_fallback ::
  "services \<Rightarrow> collection \<Rightarrow> search_params \<Rightarrow> (string \<times> string) list \<Rightarrow> doc list comp" where
  "manual_fallback sv coll search_params filter_dict =
     bindE (run_aggregate sv coll
              (search_params\<lparr>sp_limit := 100, sp_numCandidates := 250, sp_filter := None\<rparr>))
       (\<lambda>results. returnE (take (sp_limit search_params)
                              (filter (matches_filter filter_dict) results)))"

text \<open>A dictionary is truthy when it is there and not empty.\<close>

fun truthy_dict :: "(string \<times> string) list option \<Rightarrow> bool" where
  "truthy_dict None = False"
| "truthy_dict (Some fd) = (fd \<noteq> [])"

fun dict_items :: "(string \<times> string) list option \<Rightarrow> (string \<times> string) list" where
  "dict_items None = []"
| "dict_items (Some fd) = fd"

definition known_broken :: "state \<Rightarrow> (string \<times> string) list option \<Rightarrow> bool" where
  "known_broken s filter_dict =
     (truthy_dict filter_dict \<and> list_ex (\<lambda>kv. fst kv \<in> broken_filters s) (dict_items filter_dict))"

definition learn_broken :: "(string \<times> string) list \<Rightarrow> state \<Rightarrow> state" where
  "learn_broken fd s = s\<lparr>broken_filters := foldl (\<lambda>b kv. insert (fst kv) b) (broken_filters s) fd\<rparr>"

definition execute_resilient_search ::
  "services \<Rightarrow> collection \<Rightarrow> search_params \<Rightarrow> (string \<times> string) list option \<Rightarrow> doc list comp" where
  "execute_resilient_search sv coll search_params filter_dict s =
     (let full_params = (if truthy_dict filter_dict
                         then search_params\<lparr>sp_filter := filter_dict\<rparr> else search_params)
      in if known_broken s filter_dict
         then manual_fallback sv coll search_params (dict_items filter_dict) s
         else (case run_aggregate sv coll full_params s of
                 (Inr docs, s') \<Rightarrow> (Inr docs, s')
               | (Inl (OperationFailure m), s') \<Rightarrow>
                   (if contains_str ''indexed as filter'' m \<and> truthy_dict filter_dict
                    then manual_fallback sv coll search_params (dict_items filter_dict)
                           (learn_broken (dict_items filter_dict) s')
                    else (Inl (OperationFailure m), s'))
               | (Inl (OtherError m), s') \<Rightarrow> (Inl (OtherError m), s')))"

definition vector_search ::
  "services \<Rightarrow> embedding \<Rightarrow> nat \<Rightarrow> (string \<times> string) list option \<Rightarrow> doc list comp" where
  "vector_search sv query_embedding lmt filter_dict =
     execute_resilient_search sv Embeddings_v1
       \<lparr>sp_index = ''vector_index'', sp_path = ''embedding'', sp_queryVector = query_embedding,
        sp_numCandidates = 100, sp_limit = lmt, sp_filter = None\<rparr> filter_dict"

definition visual_search ::
  "services \<Rightarrow> embedding \<Rightarrow> nat \<Rightarrow> (string \<times> string) list option \<Rightarrow> doc list comp" where
  "visual_search sv clip_embedding lmt filter_dict =
     execute_resilient_search sv Image_embeddings
       \<lparr>sp_index = ''image_vector_index'', sp_path = ''embedding'', sp_queryVector = clip_embedding,
        sp_numCandidates = 100, sp_limit = lmt, sp_filter = None\<rparr> filter_dict"

definition unified_search ::
  "services \<Rightarrow> embedding \<Rightarrow> nat \<Rightarrow> (string \<times> string) list option \<Rightarrow> doc list comp" where
  "unified_search sv query_embedding lmt filter_dict =
     execute_resilient_search sv Unified_nodes
       \<lparr>sp_index = ''vector_index'', sp_path = ''embedding'', sp_queryVector = query_embedding,
        sp_numCandidates = 100, sp_limit = lmt, sp_filter = None\<rparr> filter_dict"

text \<open>\<^verbatim>\<open>{"category": category} if category else None\<close>\<close>

fun category_filter :: "string option \<Rightarrow> (string \<times> string) list option" where
  "category_filter None = None"
| "category_filter (Some c) = (if c = [] then None else Some [(''category'', c)])"

definition strict_visual_search ::
  "services \<Rightarrow> embedding \<Rightarrow> string option \<Rightarrow> nat \<Rightarrow> doc list comp" where
  "strict_visual_search sv clip_text_embedding category lmt =
     execute_resilient_search sv Unified_nodes
       \<lparr>sp_index = ''unified_clip_index'', sp_path = ''related_images.clip_embedding'',
        sp_queryVector = clip_text_embedding, sp_numCandidates = 100, sp_limit = lmt,
        sp_filter = None\<rparr> (category_filter category)"

section \<open>chat_engine.py: helpers that talk to the generator\<close>

definition llm_call :: "services \<Rightarrow> llm_use \<Rightarrow> string \<Rightarrow> state \<Rightarrow> (exn + string) \<times> state" where
  "llm_call sv use prompt s = (llm_invoke sv (trace s) prompt, record_event (LLMCall use prompt) s)"

definition generate_queries_prompt :: "string \<Rightarrow> string" where
  "generate_queries_prompt question =
     ''You are a search expert. Rewrite the query below into 3 distinct semantic variations to improve catalog retrieval.''
     @ [nl] @
     ''Avoid just changing synonyms; think about different architectural aspects of the query.''
     @ [nl, nl] @ ''Original Query: '' @ question @ [nl, nl] @
     ''Provide exactly 3 variations, one per line, no numbering:''"

definition generate_queries :: "services \<Rightarrow> string \<Rightarrow> state \<Rightarrow> string list \<times> state" where
  "generate_queries sv question s =
     (case llm_call sv Paraphrase (generate_queries_prompt question) s of
        (Inr content, s') \<Rightarrow>
          (let res = strip content;
               variations = map strip (filter (\<lambda>v. strip v \<noteq> []) (split_char nl res))
           in (take 3 variations @ [question], s'))
      | (Inl e, s') \<Rightarrow> ([question], s'))"

definition score_relevance_prompt :: "string \<Rightarrow> string \<Rightarrow> string" where
  "score_relevance_prompt query context =
     ''Rate the relevance of the following context to the user's question.''
     @ [nl] @ ''Question: '' @ query @ [nl] @ ''Context: '' @ context @ [nl, nl] @
     ''Rate from 0.0 to 1.0 (float only, e.g., 0.85):''"

text \<open>One match of the regular expression \<^verbatim>\<open>0\.\d+|1\.0\<close> at the head of a string.\<close>

definition match_score_at :: "string \<Rightarrow> string option" where
  "match_score_at s =
     (if prefix ''0.'' s \<and> takeWhile is_digit (drop 2 s) \<noteq> []
      then Some (''0.'' @ takeWhile is_digit (drop 2 s))
      else if prefix ''1.0'' s then Some ''1.0''
      else None)"

text \<open>\<^verbatim>\<open>re.findall\<close>: the non-overlapping matches from left to right.\<close>

fun findall_scores :: "string \<Rightarrow> string list" where
  "findall_scores [] = []"
| "findall_scores (c # cs) =
     (case match_score_at (c # cs) of
        None \<Rightarrow> findall_scores cs
      | Some m \<Rightarrow> m # findall_scores (drop (length m - 1) cs))"

definition digit_val :: "char \<Rightarrow> nat" where
  "digit_val c = (case map_of (zip digits [0, 1, 2, 3, 4, 5, 6, 7, 8, 9]) c of None \<Rightarrow> 0 | Some n \<Rightarrow> n)"

text \<open>\<^verbatim>\<open>float(m)\<close> for a match of the expression above, as the exact decimal it denotes
  (the rounding to a double is not modelled).\<close>

definition float_of_score :: "string \<Rightarrow> real" where
  "float_of_score m =
     (if m = ''1.0'' then 1
      else foldr (\<lambda>d acc. (real (digit_val d) + acc) / 10) (drop 2 m) 0)"

definition score_relevance :: "services \<Rightarrow> string \<Rightarrow> string \<Rightarrow> state \<Rightarrow> real \<times> state" where
  "score_relevance sv query context s =
     (if strip context = [] then (0, s)
      else (case llm_call sv Score (score_relevance_prompt query context) s of
              (Inr content, s') \<Rightarrow>
                (case findall_scores (strip content) of
                   [] \<Rightarrow> (0.5, s')
                 | m # ms \<Rightarrow> (float_of_score m, s'))
            | (Inl e, s') \<Rightarrow> (0.5, s')))"

definition rewrite_query_prompt :: "string \<Rightarrow> string" where
  "rewrite_query_prompt query =
     ''Rewrite the following user design query into a more technical, catalog-friendly search term.''
     @ [nl] @ ''Focus on architectural keywords, materials, and specific products.''
     @ [nl, nl] @ ''Original: '' @ query @ [nl] @ ''Technical Search Term:''"

definition rewrite_query :: "services \<Rightarrow> string \<Rightarrow> state \<Rightarrow> string \<times> state" where
  "rewrite_query sv query s =
     (case llm_call sv Rewrite (rewrite_query_prompt query) s of
        (Inr content, s') \<Rightarrow> (filter (\<lambda>c. c \<noteq> CHR 0x22) (strip content), s')
      | (Inl e, s') \<Rightarrow> (query, s'))"

definition extract_entities_prompt :: "string \<Rightarrow> string" where
  "extract_entities_prompt text =
     ''Extract exactly 5 key architectural or design entities (e.g., 'marble island', 'pendant lighting') from this text. Separated by commas:''
     @ [nl, nl] @ text"

definition extract_entities :: "services \<Rightarrow> string \<Rightarrow> state \<Rightarrow> string list \<times> state" where
  "extract_entities sv text s =
     (case llm_call sv Entities (extract_entities_prompt text) s of
        (Inr content, s') \<Rightarrow>
          (map strip (filter (\<lambda>e. strip e \<noteq> []) (split_char (CHR '','') (strip content))), s')
      | (Inl e, s') \<Rightarrow> ([], s'))"

definition generate_answer :: "services \<Rightarrow> string \<Rightarrow> string \<Rightarrow> state \<Rightarrow> string \<times> state" where
  "generate_answer sv question context s =
     (case chain_invoke sv (trace s) context question of
        Inr res \<Rightarrow>
          (if strip res \<noteq> [] then res
           else ''I'm sorry, I couldn't find enough information in our catalogs to answer that specific design question.'',
           record_event (ChainCall context question) s)
      | Inl e \<Rightarrow>
          (''I encountered an error while analyzing the catalogs: '' @ exn_str e,
           record_event (ChainCall context question) s))"

definition generate_draft_answer_prompt :: "string \<Rightarrow> string \<Rightarrow> string" where
  "generate_draft_answer_prompt question context =
     ''Based on this partial context, provide a one-sentence design hypothesis:''
     @ [nl] @ ''Context: '' @ context @ [nl] @ ''Question: '' @ question"

definition generate_draft_answer :: "services \<Rightarrow> string \<Rightarrow> string \<Rightarrow> state \<Rightarrow> string \<times> state" where
  "generate_draft_answer sv question context s =
     (case llm_call sv Draft (generate_draft_answer_prompt question context) s of
        (Inr content, s') \<Rightarrow> (content, s')
      | (Inl e, s') \<Rightarrow> (''Seeking further catalog details...'', s'))"

text \<open>A helper that cannot fail, run inside a pipeline that can.\<close>

definition liftE :: "(state \<Rightarrow> 'a \<times> state) \<Rightarrow> 'a comp" where
  "liftE m s = (case m s of (x, s') \<Rightarrow> (Inr x, s'))"

section \<open>chat_engine.py: pure helpers\<close>

definition category_keywords :: "string list" where
  "category_keywords =
     [''car'', ''vehicle'', ''engine'', ''speed'', ''safety'', ''luxury'', ''suv'', ''sedan'',
      ''wrench'', ''soldering'', ''pneumatic'', ''wiring'', ''electrical'']"

definition detect_category :: "string \<Rightarrow> string option" where
  "detect_category question =
     (if list_ex (\<lambda>w. contains_str w (lower question)) category_keywords
      then Some ''automotive'' else None)"

text \<open>\<^verbatim>\<open>str(doc.get("_id"))\<close>\<close>

definition doc_key :: "doc \<Rightarrow> string" where
  "doc_key d = (case d_id d of None \<Rightarrow> ''None'' | Some i \<Rightarrow> i)"

fun deduplicate_from :: "string set \<Rightarrow> doc list \<Rightarrow> doc list" where
  "deduplicate_from seen [] = []"
| "deduplicate_from seen (d # ds) =
     (if doc_key d \<in> seen then deduplicate_from seen ds
      else d # deduplicate_from (insert (doc_key d) seen) ds)"

definition deduplicate_docs :: "doc list \<Rightarrow> doc list" where
  "deduplicate_docs docs = deduplicate_from {} docs"

definition context_of :: "doc list \<Rightarrow> string" where
  "context_of docs =
     py_join [nl, nl] (map (\<lambda>d. case d_combined_text d of None \<Rightarrow> [] | Some t \<Rightarrow> t) docs)"

text \<open>Sorting with \<^verbatim>\<open>reverse=True\<close> is stable: equal keys keep their order.\<close>

definition sort_desc :: "('a \<Rightarrow> real) \<Rightarrow> 'a list \<Rightarrow> 'a list" where
  "sort_desc key xs = sort_key (\<lambda>x. - key x) xs"

definition rerank_by_relevance :: "services \<Rightarrow> string \<Rightarrow> doc list \<Rightarrow> nat \<Rightarrow> doc list" where
  "rerank_by_relevance sv query docs top_k =
     (let q_emb = get_embeddings sv query;
          scored = concat (map (\<lambda>d. case d_embedding d of
                                        None \<Rightarrow> []
                                      | Some d_emb \<Rightarrow>
                                          if d_emb = [] then [] else [(cos_sim sv q_emb d_emb, d)])
                               docs)
      in map snd (take top_k (sort_desc fst scored)))"

subsection \<open>Reciprocal rank fusion\<close>

type_synonym rrf_tables = "(string \<times> real) list \<times> (string \<times> doc) list"

text \<open>The two dictionaries are association lists: an update of a key that is there keeps
  its position, a new key goes to the end, as in a Python \<^verbatim>\<open>dict\<close>.\<close>

text \<open>One iteration of the inner loop. A new identifier gets the score 0 before the
  addition, so the score written is the old score, or 0, plus \<open>1 / (rank + k)\<close>.\<close>

definition rrf_visit :: "nat \<Rightarrow> nat \<Rightarrow> doc \<Rightarrow> rrf_tables \<Rightarrow> rrf_tables" where
  "rrf_visit k rank d tabs =
     (let doc_id = doc_key d;
          fused_scores = fst tabs;
          doc_store = snd tabs;
          old = (case map_of fused_scores doc_id of None \<Rightarrow> 0 | Some v \<Rightarrow> v)
      in (AList.update doc_id (old + 1 / (real rank + real k)) fused_scores,
          AList.update doc_id d doc_store))"

fun rrf_scan :: "nat \<Rightarrow> nat \<Rightarrow> doc list \<Rightarrow> rrf_tables \<Rightarrow> rrf_tables" where
  "rrf_scan k rank [] tabs = tabs"
| "rrf_scan k rank (d # ds) tabs = rrf_scan k (Suc rank) ds (rrf_visit k rank d tabs)"

definition rrf_tables_of :: "nat \<Rightarrow> doc list list \<Rightarrow> rrf_tables" where
  "rrf_tables_of k results_lists = foldl (\<lambda>tabs results. rrf_scan k 0 results tabs) ([], []) results_lists"

definition reciprocal_rank_fusion :: "doc list list \<Rightarrow> nat \<Rightarrow> nat \<Rightarrow> doc list" where
  "reciprocal_rank_fusion results_lists lmt k =
     (let tabs = rrf_tables_of k results_lists;
          ranked_ids = sort_desc snd (fst tabs)
      in map (\<lambda>p. the (map_of (snd tabs) (fst p))) (take lmt ranked_ids))"

subsection \<open>Image formatting and retrieval\<close>

definition pdf_mapping :: "(string \<times> string) list" where
  "pdf_mapping = [(''automotive'', ''/data/Automotive_Catalogue_4_April_2025.pdf'')]"

fun truthy_str :: "string option \<Rightarrow> bool" where
  "truthy_str None = False"
| "truthy_str (Some t) = (t \<noteq> [])"

fun truthy_page :: "page option \<Rightarrow> bool" where
  "truthy_page None = False"
| "truthy_page (Some (PageNo n)) = (n \<noteq> 0)"
| "truthy_page (Some (PageLabel l)) = (l \<noteq> [])"

fun page_str :: "page \<Rightarrow> string" where
  "page_str (PageNo n) = str_of_nat n"
| "page_str (PageLabel l) = l"

text \<open>\<^verbatim>\<open>img.get("image_path") or img.get("path")\<close>\<close>

definition image_key :: "image \<Rightarrow> string option" where
  "image_key img = (if truthy_str (i_image_path img) then i_image_path img else i_path img)"

definition format_image_path :: "image \<Rightarrow> doc option \<Rightarrow> out_image" where
  "format_image_path img_obj parent_node =
     (let path = (if truthy_str (i_image_path img_obj) then the (i_image_path img_obj)
                  else (case i_path img_obj of None \<Rightarrow> [] | Some p \<Rightarrow> p));
          page0 = (if truthy_page (i_page_label img_obj) then i_page_label img_obj
                   else i_page img_obj);
          page1 = (case parent_node of
                     None \<Rightarrow> page0
                   | Some node \<Rightarrow> if truthy_page page0 then page0 else d_page node);
          category = (case parent_node of
                        None \<Rightarrow> ''Catalog''
                      | Some node \<Rightarrow>
                          (case d_category node of None \<Rightarrow> ''Catalog'' | Some c \<Rightarrow> c));
          pdf_url0 = (case map_of pdf_mapping (lower category) of None \<Rightarrow> [] | Some u \<Rightarrow> u);
          pdf_url = (if pdf_url0 \<noteq> [] \<and> truthy_page page1
                     then ''http://localhost:8000'' @ pdf_url0 @ ''#page='' @ page_str (the page1)
                     else pdf_url0)
      in \<lparr>o_image_path = path,
          o_page = (if truthy_page page1 then the page1 else PageLabel ''N/A''),
          o_pdf = title category,
          o_pdf_url = pdf_url,
          o_ocr_text = (case i_ocr_text img_obj of None \<Rightarrow> [] | Some t \<Rightarrow> t),
          o_score = (case i_score img_obj of None \<Rightarrow> 0.3 | Some v \<Rightarrow> v)\<rparr>)"

type_synonym candidates = "out_image list \<times> string set"

text \<open>One image of a node returned by the visual-direct search.\<close>

definition visual_image :: "services \<Rightarrow> embedding \<Rightarrow> doc \<Rightarrow> candidates \<Rightarrow> image \<Rightarrow> candidates" where
  "visual_image sv query_clip_emb node acc img =
     (case image_key img of
        None \<Rightarrow> acc
      | Some img_path \<Rightarrow>
          if img_path \<noteq> [] \<and> img_path \<notin> snd acc
          then (case i_clip_embedding img of
                  None \<Rightarrow> acc
                | Some img_emb \<Rightarrow>
                    if img_emb = [] then acc
                    else (let sim = cos_sim sv query_clip_emb img_emb
                          in if sim > 0.22
                             then (fst acc @ [format_image_path (img\<lparr>i_score := Some sim\<rparr>) (Some node)],
                                   insert img_path (snd acc))
                             else acc))
          else acc)"

definition visual_pass :: "services \<Rightarrow> embedding \<Rightarrow> doc list \<Rightarrow> candidates \<Rightarrow> candidates" where
  "visual_pass sv query_clip_emb visual_nodes acc0 =
     foldl (\<lambda>acc node. case d_related_images node of
                          None \<Rightarrow> acc
                        | Some imgs \<Rightarrow> foldl (visual_image sv query_clip_emb node) acc imgs)
           acc0 visual_nodes"

text \<open>One image of a document of the text context: the similarity is boosted first and the
  boosted score is what the threshold sees.\<close>

definition text_image :: "services \<Rightarrow> embedding \<Rightarrow> doc \<Rightarrow> candidates \<Rightarrow> image \<Rightarrow> candidates" where
  "text_image sv query_clip_emb d acc img =
     (case image_key img of
        None \<Rightarrow> acc
      | Some img_path \<Rightarrow>
          if img_path \<noteq> [] \<and> img_path \<notin> snd acc
          then (case i_clip_embedding img of
                  None \<Rightarrow> acc
                | Some img_emb \<Rightarrow>
                    if img_emb = [] then acc
                    else (let sim = cos_sim sv query_clip_emb img_emb;
                              final_score = sim * 1.15
                          in if final_score > 0.22
                             then (fst acc @ [format_image_path (img\<lparr>i_score := Some final_score\<rparr>) (Some d)],
                                   insert img_path (snd acc))
                             else acc))
          else acc)"

definition text_pass :: "services \<Rightarrow> embedding \<Rightarrow> doc list \<Rightarrow> candidates \<Rightarrow> candidates" where
  "text_pass sv query_clip_emb text_docs acc0 =
     foldl (\<lambda>acc d. case d_related_images d of
                       None \<Rightarrow> acc
                     | Some imgs \<Rightarrow> foldl (text_image sv query_clip_emb d) acc imgs)
           acc0 text_docs"

fun truthy_docs :: "doc list option \<Rightarrow> bool" where
  "truthy_docs None = False"
| "truthy_docs (Some ds) = (ds \<noteq> [])"

fun docs_of :: "doc list option \<Rightarrow> doc list" where
  "docs_of None = []"
| "docs_of (Some ds) = ds"

definition all_candidate_images ::
  "services \<Rightarrow> embedding \<Rightarrow> doc list \<Rightarrow> doc list option \<Rightarrow> candidates" where
  "all_candidate_images sv query_clip_emb visual_nodes text_docs =
     (let acc1 = visual_pass sv query_clip_emb visual_nodes ([], {})
      in if truthy_docs text_docs then text_pass sv query_clip_emb (docs_of text_docs) acc1
         else acc1)"

definition retrieve_images ::
  "services \<Rightarrow> string \<Rightarrow> string option \<Rightarrow> nat \<Rightarrow> doc list option \<Rightarrow> out_image list comp" where
  "retrieve_images sv search_query category lmt text_docs s =
     (let query_clip_emb = get_clip_text_embedding sv search_query
      in bindE (strict_visual_search sv query_clip_emb category 20)
           (\<lambda>visual_nodes.
              returnE (take lmt (sort_desc o_score
                         (fst (all_candidate_images sv query_clip_emb visual_nodes text_docs)))))
           (record_event (ImgSearch search_query category lmt text_docs) s))"

definition retrieve_context ::
  "services \<Rightarrow> string \<Rightarrow> nat \<Rightarrow> string option \<Rightarrow> doc list comp" where
  "retrieve_context sv question top_k category s =
     (let emb = get_embeddings sv question
      in unified_search sv emb top_k (category_filter category)
           (record_event (CtxSearch question top_k category) s))"

section \<open>chat_engine.py: the four pipelines and the router\<close>

text \<open>The result dictionary. \<^verbatim>\<open>generation_time\<close> is wall-clock time and is left out.\<close>

record result =
  r_answer :: string
  r_images :: "out_image list"
  r_relevance_score :: "real option"
  r_entities :: "string list option"
  r_queries :: "string list option"
  r_mode :: "string option"

definition standard_rag_pipeline :: "services \<Rightarrow> string \<Rightarrow> doc list option \<Rightarrow> result comp" where
  "standard_rag_pipeline sv question initial_docs =
     (let category = detect_category question
      in bindE (if truthy_docs initial_docs then returnE (docs_of initial_docs)
                else retrieve_context sv question 10 category)
           (\<lambda>context_docs.
              let context = context_of context_docs
              in bindE (retrieve_images sv question category 12 (Some context_docs))
                   (\<lambda>images.
                      bindE (liftE (generate_answer sv question context))
                        (\<lambda>answer.
                           returnE \<lparr>r_answer = answer, r_images = images,
                                    r_relevance_score = None, r_entities = None,
                                    r_queries = None, r_mode = None\<rparr>))))"

definition corrective_rag_pipeline :: "services \<Rightarrow> string \<Rightarrow> doc list option \<Rightarrow> result comp" where
  "corrective_rag_pipeline sv question initial_docs =
     (let category = detect_category question
      in bindE (if truthy_docs initial_docs then returnE (docs_of initial_docs)
                else retrieve_context sv question 8 category)
           (\<lambda>context_docs0.
              bindE (liftE (score_relevance sv question (context_of context_docs0)))
                (\<lambda>score.
                   bindE (if score < 0.7
                          then bindE (liftE (rewrite_query sv question))
                                 (\<lambda>rewritten_q.
                                    bindE (retrieve_context sv rewritten_q 15 None)
                                      (\<lambda>secondary.
                                         returnE (deduplicate_docs (context_docs0 @ secondary),
                                                  rewritten_q)))
                          else returnE (context_docs0, question))
                     (\<lambda>(context_docs, v_query).
                        let context = context_of (take 12 context_docs)
                        in bindE (retrieve_images sv v_query category 12 (Some context_docs))
                             (\<lambda>images.
                                bindE (liftE (generate_answer sv question context))
                                  (\<lambda>answer.
                                     returnE \<lparr>r_answer = answer, r_images = images,
                                              r_relevance_score = Some score, r_entities = None,
                                              r_queries = None, r_mode = None\<rparr>))))))"

fun enrich :: "services \<Rightarrow> string list \<Rightarrow> doc list \<Rightarrow> doc list comp" where
  "enrich sv [] enriched = returnE enriched"
| "enrich sv (entity # es) enriched =
     bindE (retrieve_context sv entity 3 None) (\<lambda>ds. enrich sv es (enriched @ ds))"

definition speculative_rag_pipeline :: "services \<Rightarrow> string \<Rightarrow> doc list option \<Rightarrow> result comp" where
  "speculative_rag_pipeline sv question initial_docs =
     (let category = detect_category question
      in bindE (if truthy_docs initial_docs then returnE (take 3 (docs_of initial_docs))
                else retrieve_context sv question 3 category)
           (\<lambda>quick_docs.
              bindE (liftE (generate_draft_answer sv question (context_of quick_docs)))
                (\<lambda>draft.
                   bindE (liftE (extract_entities sv (question @ '' '' @ draft)))
                     (\<lambda>entities.
                        bindE (enrich sv (take 2 entities) [])
                          (\<lambda>enriched.
                             let merged0 = deduplicate_docs (quick_docs @ enriched);
                                 merged = rerank_by_relevance sv question merged0 15;
                                 context = context_of merged
                             in bindE (liftE (generate_answer sv question context))
                                  (\<lambda>answer.
                                     let v_query = question @ '' '' @ py_join '' '' (take 2 entities)
                                     in bindE (retrieve_images sv v_query category 12 (Some merged))
                                          (\<lambda>images.
                                             returnE \<lparr>r_answer = answer, r_images = images,
                                                      r_relevance_score = None,
                                                      r_entities = Some entities,
                                                      r_queries = None, r_mode = None\<rparr>)))))))"

fun multi_search :: "services \<Rightarrow> string option \<Rightarrow> string list \<Rightarrow> doc list list \<Rightarrow> doc list list comp" where
  "multi_search sv category [] all_results = returnE all_results"
| "multi_search sv category (q # qs) all_results =
     bindE (retrieve_context sv q 10 category)
       (\<lambda>docs. multi_search sv category qs (all_results @ [docs]))"

definition fusion_rag_pipeline :: "services \<Rightarrow> string \<Rightarrow> doc list option \<Rightarrow> result comp" where
  "fusion_rag_pipeline sv question initial_docs =
     (let category = detect_category question
      in bindE (liftE (generate_queries sv question))
           (\<lambda>queries0.
              let queries = take 2 queries0
              in bindE (multi_search sv category queries [])
                   (\<lambda>all_results.
                      let fused_docs = reciprocal_rank_fusion all_results 15 60;
                          context = context_of fused_docs
                      in bindE (retrieve_images sv question category 12 (Some fused_docs))
                           (\<lambda>images.
                              bindE (liftE (generate_answer sv question context))
                                (\<lambda>answer.
                                   returnE \<lparr>r_answer = answer, r_images = images,
                                            r_relevance_score = None, r_entities = None,
                                            r_queries = Some queries, r_mode = None\<rparr>)))))"

definition with_mode :: "string \<Rightarrow> result comp \<Rightarrow> result comp" where
  "with_mode m pipeline = bindE pipeline (\<lambda>r. returnE (r\<lparr>r_mode := Some m\<rparr>))"

text \<open>The first half of \<^verbatim>\<open>ask\<close>: in auto mode the probe search and the choice of the
  strategy; otherwise the caller's mode and no initial documents.\<close>

definition route :: "services \<Rightarrow> string \<Rightarrow> string \<Rightarrow> (doc list option \<times> string) comp" where
  "route sv question rag_mode =
     (if rag_mode = ''auto''
      then bindE (retrieve_context sv question 5 None)
             (\<lambda>initial_docs.
                let wc = length (split_ws question)
                in returnE (Some initial_docs,
                            if wc \<le> 3 then ''speculative''
                            else if length initial_docs < 3 then ''fusion''
                            else ''standard''))
      else returnE (None, rag_mode))"

definition dispatch :: "services \<Rightarrow> string \<Rightarrow> doc list option \<Rightarrow> string \<Rightarrow> result comp" where
  "dispatch sv question initial_docs rag_mode =
     (if rag_mode = ''standard''
      then with_mode ''standard'' (standard_rag_pipeline sv question initial_docs)
      else if rag_mode = ''corrective''
      then with_mode ''corrective'' (corrective_rag_pipeline sv question initial_docs)
      else if rag_mode = ''speculative''
      then with_mode ''speculative'' (speculative_rag_pipeline sv question initial_docs)
      else if rag_mode = ''fusion''
      then with_mode ''fusion'' (fusion_rag_pipeline sv question initial_docs)
      else with_mode ''standard'' (standard_rag_pipeline sv question initial_docs))"

definition ask :: "services \<Rightarrow> string \<Rightarrow> string \<Rightarrow> result comp" where
  "ask sv question rag_mode =
     bindE (route sv question rag_mode)
       (\<lambda>(initial_docs, chosen). dispatch sv question initial_docs chosen)"

section \<open>Observing the resilient search client\<close>

text \<open>A backend call whose \<^verbatim>\<open>$vectorSearch\<close> stage carries a filter on the key \<open>k\<close>.\<close>

fun is_filtered_on :: "string \<Rightarrow> event \<Rightarrow> bool" where
  "is_filtered_on k (Aggregate c p) = list_ex (\<lambda>kv. fst kv = k) (dict_items (sp_filter p))"
| "is_filtered_on k (LLMCall u p) = False"
| "is_filtered_on k (ChainCall c q) = False"
| "is_filtered_on k (CtxSearch q n c) = False"
| "is_filtered_on k (ImgSearch q c n d) = False"

text \<open>The public search methods of the handler, and a process lifetime as the sequence of
  requests served; a request that raises leaves the handler in the state it reached.\<close>

datatype request =
    VectorSearch embedding nat "(string \<times> string) list option"
  | VisualSearch embedding nat "(string \<times> string) list option"
  | UnifiedSearch embedding nat "(string \<times> string) list option"
  | StrictVisualSearch embedding "string option" nat

fun serve :: "services \<Rightarrow> request \<Rightarrow> doc list comp" where
  "serve sv (VectorSearch e n f) = vector_search sv e n f"
| "serve sv (VisualSearch e n f) = visual_search sv e n f"
| "serve sv (UnifiedSearch e n f) = unified_search sv e n f"
| "serve sv (StrictVisualSearch e c n) = strict_visual_search sv e c n"

fun serve_all :: "services \<Rightarrow> request list \<Rightarrow> state \<Rightarrow> state" where
  "serve_all sv [] s = s"
| "serve_all sv (r # rs) s = serve_all sv rs (snd (serve sv r s))"

text \<open>The parameters of the fallback's backend call.\<close>

definition widened :: "search_params \<Rightarrow> search_params" where
  "widened p = p\<lparr>sp_limit := 100, sp_numCandidates := 250, sp_filter := None\<rparr>"

text \<open>The events a step appended to the trace.\<close>

definition new_events :: "state \<Rightarrow> state \<Rightarrow> event list" where
  "new_events s s' = drop (length (trace s)) (trace s')"

subsection \<open>A concrete backend that rejects every filter\<close>

definition doc_a :: doc where
  "doc_a = \<lparr>d_id = Some ''a'', d_combined_text = Some ''torque wrench'',
            d_category = Some ''automotive'', d_page = Some (PageNo 4), d_embedding = Some [1, 0],
            d_related_images = None, d_fields = [(''style'', ''modern'')]\<rparr>"

definition doc_b :: doc where
  "doc_b = \<lparr>d_id = Some ''b'', d_combined_text = Some ''oak table'',
            d_category = Some ''furniture'', d_page = Some (PageNo 7), d_embedding = Some [0, 1],
            d_related_images = None, d_fields = [(''style'', ''rustic'')]\<rparr>"

definition strict_backend :: services where
  "strict_backend =
     \<lparr>llm_invoke = (\<lambda>h p. Inl (OtherError ''generator down'')),
      chain_invoke = (\<lambda>h c q. Inr ''answer''),
      aggregate = (\<lambda>h c p. if sp_filter p = None then Inr [doc_a, doc_b]
                             else Inl (OperationFailure ''Path needs to be indexed as filter'')),
      get_embeddings = (\<lambda>t. [1, 0]),
      get_clip_text_embedding = (\<lambda>t. [1, 0]),
      cos_sim = (\<lambda>a b. 0)\<rparr>"

text \<open>A filter on a key that is not known to be broken at first, and the state the handler
  is in once it has learnt it.\<close>

definition style_filter :: "(string \<times> string) list" where
  "style_filter = [(''style'', ''modern'')]"

definition probe_params :: search_params where
  "probe_params = \<lparr>sp_index = ''vector_index'', sp_path = ''embedding'', sp_queryVector = [1, 0],
                    sp_numCandidates = 100, sp_limit = 5, sp_filter = None\<rparr>"

definition learned_state :: state where
  "learned_state = snd (unified_search strict_backend [1, 0] 5 (Some style_filter) init_handler)"

definition category_request :: "(string \<times> string) list" where
  "category_request = [(''category'', ''automotive'')]"

section \<open>Reciprocal rank fusion: what the specification says\<close>

text \<open>The score the code holds for an identifier after the two loops (0 when it holds none).\<close>

definition score_of :: "(string \<times> real) list \<Rightarrow> string \<Rightarrow> real" where
  "score_of fused_scores i = (case map_of fused_scores i of None \<Rightarrow> 0 | Some v \<Rightarrow> v)"

definition fused_score :: "nat \<Rightarrow> doc list list \<Rightarrow> string \<Rightarrow> real" where
  "fused_score k results_lists i = score_of (fst (rrf_tables_of k results_lists)) i"


fun first_seen :: "'a list \<Rightarrow> 'a list" where
  "first_seen [] = []"
| "first_seen (x # xs) = x # filter (\<lambda>y. y \<noteq> x) (first_seen xs)"

text \<open>The sum of \<open>1 / (rank + k)\<close> over every entry of one list that carries the identifier,
  ranks counted from \<open>r\<close>.\<close>

fun entry_scores :: "nat \<Rightarrow> nat \<Rightarrow> string \<Rightarrow> doc list \<Rightarrow> real" where
  "entry_scores k r i [] = 0"
| "entry_scores k r i (d # ds) =
     (if doc_key d = i then 1 / (real r + real k) else 0) + entry_scores k (Suc r) i ds"

definition sum_entry_scores :: "nat \<Rightarrow> doc list list \<Rightarrow> string \<Rightarrow> real" where
  "sum_entry_scores k results_lists i = sum_list (map (entry_scores k 0 i) results_lists)"


fun rank_from :: "nat \<Rightarrow> string \<Rightarrow> doc list \<Rightarrow> nat option" where
  "rank_from r i [] = None"
| "rank_from r i (d # ds) = (if doc_key d = i then Some r else rank_from (Suc r) i ds)"






section \<open>Image retrieval: where a returned entry comes from\<close>

definition images_of :: "doc \<Rightarrow> image list" where
  "images_of d = (case d_related_images d of None \<Rightarrow> [] | Some imgs \<Rightarrow> imgs)"

text \<open>An entry of the visual-direct pass: an image of a visual node whose similarity to the
  query exceeds 0.22, formatted with that similarity as its score.\<close>

definition visual_entry :: "services \<Rightarrow> embedding \<Rightarrow> doc list \<Rightarrow> out_image \<Rightarrow> bool" where
  "visual_entry sv q nodes e =
     list_ex (\<lambda>node. list_ex (\<lambda>img. case i_clip_embedding img of
                                        None \<Rightarrow> False
                                      | Some emb \<Rightarrow>
                                          0.22 < cos_sim sv q emb
                                          \<and> e = format_image_path
                                                  (img\<lparr>i_score := Some (cos_sim sv q emb)\<rparr>) (Some node))
                             (images_of node))
             nodes"

text \<open>An entry of the text-context pass: an image of a context document whose boosted
  similarity exceeds 0.22, formatted with the boosted similarity as its score.\<close>

definition text_entry :: "services \<Rightarrow> embedding \<Rightarrow> doc list \<Rightarrow> out_image \<Rightarrow> bool" where
  "text_entry sv q docs e =
     list_ex (\<lambda>d. list_ex (\<lambda>img. case i_clip_embedding img of
                                     None \<Rightarrow> False
                                   | Some emb \<Rightarrow>
                                       0.22 < cos_sim sv q emb * 1.15
                                       \<and> e = format_image_path
                                               (img\<lparr>i_score := Some (cos_sim sv q emb * 1.15)\<rparr>) (Some d))
                          (images_of d))
             docs"

subsection \<open>A small gallery: one visual node and one context document\<close>

definition img_strong :: image where
  "img_strong = \<lparr>i_image_path = Some ''img/strong.png'', i_path = None,
                  i_clip_embedding = Some [27 / 100, 0], i_page_label = None,
                  i_page = Some (PageNo 3), i_ocr_text = Some ''torque chart'', i_score = None\<rparr>"

definition img_weak :: image where
  "img_weak = \<lparr>i_image_path = None, i_path = Some ''img/weak.png'',
                i_clip_embedding = Some [1 / 5, 0], i_page_label = None,
                i_page = None, i_ocr_text = None, i_score = None\<rparr>"

definition img_context :: image where
  "img_context = \<lparr>i_image_path = Some ''img/context.png'', i_path = None,
                   i_clip_embedding = Some [1 / 4, 0], i_page_label = None,
                   i_page = None, i_ocr_text = None, i_score = None\<rparr>"

definition node_visual :: doc where
  "node_visual = \<lparr>d_id = Some ''v1'', d_combined_text = Some ''impact wrench'',
                   d_category = Some ''automotive'', d_page = Some (PageNo 3),
                   d_embedding = Some [1, 0], d_related_images = Some [img_strong, img_weak],
                   d_fields = []\<rparr>"

definition doc_context :: doc where
  "doc_context = \<lparr>d_id = Some ''t1'', d_combined_text = Some ''pneumatic tools'',
                   d_category = None, d_page = None,
                   d_embedding = Some [0, 1], d_related_images = Some [img_context, img_strong],
                   d_fields = []\<rparr>"

definition doc_weak :: doc where
  "doc_weak = \<lparr>d_id = Some ''t2'', d_combined_text = Some ''spare parts'',
                d_category = None, d_page = None,
                d_embedding = Some [0, 1], d_related_images = Some [img_weak],
                d_fields = []\<rparr>"

text \<open>The similarity oracle of the gallery is the dot product (the embeddings of the
  engine are normalised), and the query embedding is the first unit vector.\<close>

definition gallery :: services where
  "gallery =
     \<lparr>llm_invoke = (\<lambda>h p. Inl (OtherError ''generator down'')),
      chain_invoke = (\<lambda>h c q. Inr ''answer''),
      aggregate = (\<lambda>h c p. Inr [node_visual]),
      get_embeddings = (\<lambda>t. [1, 0]),
      get_clip_text_embedding = (\<lambda>t. [1, 0]),
      cos_sim = (\<lambda>a b. sum_list (map2 (*) a b))\<rparr>"

text \<open>The state the gallery is in after one image search from a fresh handler, and the
  formatted entries of its three images.\<close>

definition after_image_search :: "string \<Rightarrow> doc list option \<Rightarrow> state" where
  "after_image_search query text_docs =
     \<lparr>broken_filters = {''category''},
      trace = [ImgSearch query None 12 text_docs,
               Aggregate Unified_nodes
                 \<lparr>sp_index = ''unified_clip_index'', sp_path = ''related_images.clip_embedding'',
                  sp_queryVector = [1, 0], sp_numCandidates = 100, sp_limit = 20,
                  sp_filter = None\<rparr>]\<rparr>"

definition entry_strong :: out_image where
  "entry_strong =
     \<lparr>o_image_path = ''img/strong.png'', o_page = PageNo 3, o_pdf = ''Automotive'',
      o_pdf_url = ''http://localhost:8000/data/Automotive_Catalogue_4_April_2025.pdf#page=3'',
      o_ocr_text = ''torque chart'', o_score = 27 / 100\<rparr>"

definition entry_context :: out_image where
  "entry_context =
     \<lparr>o_image_path = ''img/context.png'', o_page = PageLabel ''N/A'', o_pdf = ''Catalog'',
      o_pdf_url = [], o_ocr_text = [], o_score = 23 / 80\<rparr>"

definition entry_weak :: out_image where
  "entry_weak =
     \<lparr>o_image_path = ''img/weak.png'', o_page = PageLabel ''N/A'', o_pdf = ''Catalog'',
      o_pdf_url = [], o_ocr_text = [], o_score = 23 / 100\<rparr>"

section \<open>Observing a pipeline\<close>

fun is_aggregate :: "event \<Rightarrow> bool" where
  "is_aggregate (Aggregate c p) = True"
| "is_aggregate (LLMCall u p) = False"
| "is_aggregate (ChainCall c q) = False"
| "is_aggregate (CtxSearch q n c) = False"
| "is_aggregate (ImgSearch q c n d) = False"

text \<open>What the engine itself did between two states: its calls of the generator and its
  text and image retrievals, without the backend calls these led to.\<close>

definition engine_calls :: "state \<Rightarrow> state \<Rightarrow> event list" where
  "engine_calls s s' = filter (\<lambda>e. \<not> is_aggregate e) (new_events s s')"

text \<open>The backend answers every search.\<close>

definition backend_answers :: "services \<Rightarrow> bool" where
  "backend_answers sv = (\<forall>h c p. \<exists>ds. aggregate sv h c p = Inr ds)"

subsection \<open>Backends that return a fixed shelf of documents\<close>

definition shelf :: "doc list \<Rightarrow> services" where
  "shelf ds =
     \<lparr>llm_invoke = (\<lambda>h p. Inl (OtherError ''generator down'')),
      chain_invoke = (\<lambda>h c q. Inr ''answer''),
      aggregate = (\<lambda>h c p. Inr ds),
      get_embeddings = (\<lambda>t. [1, 0]),
      get_clip_text_embedding = (\<lambda>t. [1, 0]),
      cos_sim = (\<lambda>a b. sum_list (map2 (*) a b))\<rparr>"

text \<open>Five documents, a two-word and a six-word query, and the state after the probe.\<close>

definition five_docs :: "doc list" where
  "five_docs = map (\<lambda>i. doc_a\<lparr>d_id := Some i\<rparr>) [''n1'', ''n2'', ''n3'', ''n4'', ''n5'']"

definition short_query :: string where
  "short_query = ''impact wrench''"

definition long_query :: string where
  "long_query = ''which wrench fits a truck wheel''"

definition after_probe :: "string \<Rightarrow> state" where
  "after_probe question =
     \<lparr>broken_filters = {''category''},
      trace = [CtxSearch question 5 None,
               Aggregate Unified_nodes
                 \<lparr>sp_index = ''vector_index'', sp_path = ''embedding'', sp_queryVector = [1, 0],
                  sp_numCandidates = 100, sp_limit = 5, sp_filter = None\<rparr>]\<rparr>"

text \<open>A generator that answers, but never with a score.\<close>

definition vague_generator :: services where
  "vague_generator = (shelf [doc_a])\<lparr>llm_invoke := (\<lambda>h p. Inr ''  hard to say  '')\<rparr>"

subsection \<open>A generator that paraphrases\<close>

text \<open>The entries into the text retrieval among the events of a trace.\<close>

fun is_ctx_search :: "event \<Rightarrow> bool" where
  "is_ctx_search (CtxSearch q n c) = True"
| "is_ctx_search (LLMCall u p) = False"
| "is_ctx_search (ChainCall c q) = False"
| "is_ctx_search (Aggregate c p) = False"
| "is_ctx_search (ImgSearch q c n d) = False"

text \<open>A generator that answers every prompt with three paraphrases, one per line.\<close>

definition paraphraser :: services where
  "paraphraser =
     (shelf [])\<lparr>llm_invoke :=
        (\<lambda>h p. Inr (''rotary tool'' @ [nl] @ ''grinder'' @ [nl] @ ''cutting disc''))\<rparr>"

definition grinder_query :: string where
  "grinder_query = ''angle grinder''"

subsection \<open>A generator that judges relevance and rewrites queries\<close>

definition judge :: "string \<Rightarrow> services" where
  "judge verdict =
     (shelf [doc_a, doc_b])\<lparr>llm_invoke :=
        (\<lambda>h p. if prefix ''Rate'' p then Inr verdict
                else Inr ([CHR 0x22] @ ''torque wrench 2440 Nm'' @ [CHR 0x22]))\<rparr>"

text \<open>The states a Corrective run on \<open>short_query\<close> passes through.\<close>

definition judged_first :: "string \<Rightarrow> state" where
  "judged_first verdict =
     snd (retrieve_context (judge verdict) short_query 8 (Some ''automotive'') init_handler)"

definition judged_scored :: "string \<Rightarrow> state" where
  "judged_scored verdict =
     snd (score_relevance (judge verdict) short_query (context_of [doc_a]) (judged_first verdict))"

definition judged_rewritten :: "string \<Rightarrow> state" where
  "judged_rewritten verdict = snd (rewrite_query (judge verdict) short_query (judged_scored verdict))"

definition judged_second :: "string \<Rightarrow> state" where
  "judged_second verdict =
     snd (retrieve_context (judge verdict) ''torque wrench 2440 Nm'' 15 None (judged_rewritten verdict))"

section \<open>Properties of the resilient search client\<close>

lemma manual_fallback_state:
  "snd (manual_fallback sv c p fd s) = record_event (Aggregate c (widened p)) s"
  by (simp add: manual_fallback_def bindE_def run_aggregate_def returnE_def widened_def
      split: sum.splits prod.splits)

lemma manual_fallback_result:
  "fst (manual_fallback sv c p fd s) =
     (case aggregate sv (trace s) c (widened p) of
        Inl e \<Rightarrow> Inl e
      | Inr results \<Rightarrow> Inr (take (sp_limit p) (filter (matches_filter fd) results)))"
  by (simp add: manual_fallback_def bindE_def run_aggregate_def returnE_def widened_def
      split: sum.splits prod.splits)

lemma learn_broken_set:
  "broken_filters (learn_broken fd s) = broken_filters s \<union> fst ` set fd"
proof -
  have "foldl (\<lambda>b kv. insert (fst kv) b) B fd = B \<union> fst ` set fd" for B :: "string set"
    by (induction fd arbitrary: B) auto
  then show ?thesis by (simp add: learn_broken_def)
qed

lemma learn_broken_trace [simp]: "trace (learn_broken fd s) = trace s"
  by (simp add: learn_broken_def)

lemma learn_broken_noop: "fst ` set fd \<subseteq> broken_filters s \<Longrightarrow> learn_broken fd s = s"
proof -
  assume a: "fst ` set fd \<subseteq> broken_filters s"
  have "broken_filters (learn_broken fd s) = broken_filters s"
    using a by (auto simp: learn_broken_set)
  moreover have "learn_broken fd s = s\<lparr>broken_filters := broken_filters (learn_broken fd s)\<rparr>"
    by (simp add: learn_broken_def)
  ultimately show ?thesis by simp
qed

lemma learn_broken_idem: "learn_broken fd (learn_broken fd s) = learn_broken fd s"
  by (rule learn_broken_noop) (simp add: learn_broken_set)

lemma known_broken_iff:
  "known_broken s f = (\<exists>k \<in> fst ` set (dict_items f). k \<in> broken_filters s)"
  by (cases f) (auto simp: known_broken_def list_ex_iff)

lemma ers_known:
  "known_broken s f \<Longrightarrow>
     execute_resilient_search sv c p f s = manual_fallback sv c p (dict_items f) s"
  by (simp add: execute_resilient_search_def)

lemma ers_broken_mono:
  "broken_filters s \<subseteq> broken_filters (snd (execute_resilient_search sv c p f s))"
  by (auto simp: execute_resilient_search_def Let_def manual_fallback_state record_event_def
      run_aggregate_def learn_broken_set split: sum.splits exn.splits prod.splits)

lemma ers_learns:
  assumes "\<not> known_broken s (Some fd)" "fd \<noteq> []"
    and "aggregate sv (trace s) c (p\<lparr>sp_filter := Some fd\<rparr>) = Inl (OperationFailure m)"
    and "contains_str ''indexed as filter'' m"
  shows "fst ` set fd \<subseteq> broken_filters (snd (execute_resilient_search sv c p (Some fd) s))"
  using assms
  by (auto simp: execute_resilient_search_def Let_def manual_fallback_state record_event_def
      run_aggregate_def learn_broken_set)

lemma ers_trace:
  assumes "sp_filter p = None"
  shows "\<exists>evs. trace (snd (execute_resilient_search sv c p f s)) = trace s @ evs \<and>
           (\<forall>k \<in> broken_filters s. list_all (\<lambda>e. \<not> is_filtered_on k e) evs)"
proof (cases "known_broken s f")
  case True
  then show ?thesis
    by (simp add: ers_known manual_fallback_state record_event_def widened_def)
next
  case False
  then have nk: "\<forall>k \<in> broken_filters s. \<not> list_ex (\<lambda>kv. fst kv = k) (dict_items f)"
    by (auto simp: known_broken_iff list_ex_iff)
  define full where "full = (if truthy_dict f then p\<lparr>sp_filter := f\<rparr> else p)"
  have full_ok: "\<forall>k \<in> broken_filters s. \<not> is_filtered_on k (Aggregate c full)"
    using nk assms by (simp add: full_def)
  show ?thesis
  proof (cases "aggregate sv (trace s) c full")
    case (Inr docs)
    then have "trace (snd (execute_resilient_search sv c p f s)) = trace s @ [Aggregate c full]"
      using False by (simp add: execute_resilient_search_def full_def run_aggregate_def record_event_def)
    then show ?thesis using full_ok by simp
  next
    case (Inl e)
    show ?thesis
    proof (cases "\<exists>m. e = OperationFailure m \<and> contains_str ''indexed as filter'' m \<and> truthy_dict f")
      case True
      then obtain m where m: "e = OperationFailure m" "contains_str ''indexed as filter'' m" "truthy_dict f"
        by blast
      have "trace (snd (execute_resilient_search sv c p f s))
              = trace s @ [Aggregate c full, Aggregate c (widened p)]"
        using False Inl m
        by (simp add: execute_resilient_search_def full_def run_aggregate_def record_event_def
            manual_fallback_state)
      then show ?thesis using full_ok by (simp add: widened_def)
    next
      case False2: False
      have "trace (snd (execute_resilient_search sv c p f s)) = trace s @ [Aggregate c full]"
        using False Inl False2
        by (cases e) (auto simp: execute_resilient_search_def full_def run_aggregate_def record_event_def)
      then show ?thesis using full_ok by simp
    qed
  qed
qed

lemma serve_mono: "broken_filters s \<subseteq> broken_filters (snd (serve sv r s))"
  by (cases r) (simp_all add: vector_search_def visual_search_def unified_search_def
      strict_visual_search_def ers_broken_mono)

lemma serve_trace:
  "\<exists>evs. trace (snd (serve sv r s)) = trace s @ evs \<and>
     (\<forall>k \<in> broken_filters s. list_all (\<lambda>e. \<not> is_filtered_on k e) evs)"
proof (cases r)
  case (VectorSearch e n f)
  show ?thesis unfolding VectorSearch serve.simps vector_search_def
    by (rule ers_trace) simp
next
  case (VisualSearch e n f)
  show ?thesis unfolding VisualSearch serve.simps visual_search_def
    by (rule ers_trace) simp
next
  case (UnifiedSearch e n f)
  show ?thesis unfolding UnifiedSearch serve.simps unified_search_def
    by (rule ers_trace) simp
next
  case (StrictVisualSearch e c n)
  show ?thesis unfolding StrictVisualSearch serve.simps strict_visual_search_def
    by (rule ers_trace) simp
qed

lemma serve_all_mono: "broken_filters s \<subseteq> broken_filters (serve_all sv reqs s)"
proof (induction reqs arbitrary: s)
  case Nil
  show ?case by simp
next
  case (Cons r rs)
  have "broken_filters s \<subseteq> broken_filters (snd (serve sv r s))" by (rule serve_mono)
  also have "\<dots> \<subseteq> broken_filters (serve_all sv rs (snd (serve sv r s)))" by (rule Cons.IH)
  finally show ?case by simp
qed

lemma serve_all_trace:
  "\<exists>evs. trace (serve_all sv reqs s) = trace s @ evs \<and>
     (\<forall>k \<in> broken_filters s. list_all (\<lambda>e. \<not> is_filtered_on k e) evs)"
proof (induction reqs arbitrary: s)
  case Nil
  show ?case by simp
next
  case (Cons r rs)
  obtain e1 where e1: "trace (snd (serve sv r s)) = trace s @ e1"
    "\<forall>k \<in> broken_filters s. list_all (\<lambda>e. \<not> is_filtered_on k e) e1"
    using serve_trace by blast
  obtain e2 where e2: "trace (serve_all sv rs (snd (serve sv r s))) = trace (snd (serve sv r s)) @ e2"
    "\<forall>k \<in> broken_filters (snd (serve sv r s)). list_all (\<lambda>e. \<not> is_filtered_on k e) e2"
    using Cons.IH by blast
  have "\<forall>k \<in> broken_filters s. list_all (\<lambda>e. \<not> is_filtered_on k e) (e1 @ e2)"
    using e1(2) e2(2) serve_mono [of s sv r] by auto
  then show ?case using e1(1) e2(1) by simp
qed

lemma serve_all_sticky:
  "k \<in> broken_filters s \<Longrightarrow>
     list_all (\<lambda>e. \<not> is_filtered_on k e) (new_events s (serve_all sv reqs s))"
  using serve_all_trace [of sv reqs s] by (auto simp: new_events_def)

lemma ers_direct_fallback:
  assumes "k \<in> broken_filters s" "list_ex (\<lambda>kv. fst kv = k) fd"
  shows "execute_resilient_search sv c p (Some fd) s = manual_fallback sv c p fd s"
    and "new_events s (snd (execute_resilient_search sv c p (Some fd) s)) = [Aggregate c (widened p)]"
proof -
  have kb: "known_broken s (Some fd)"
    using assms by (auto simp: known_broken_iff list_ex_iff)
  show "execute_resilient_search sv c p (Some fd) s = manual_fallback sv c p fd s"
    using ers_known [OF kb] by simp
  then show "new_events s (snd (execute_resilient_search sv c p (Some fd) s)) = [Aggregate c (widened p)]"
    by (simp add: manual_fallback_state new_events_def record_event_def)
qed

text \<open>
  Claim C4. The set of known-broken filter keys only grows while requests are served;
  recording keys is idempotent, and recording keys that are all there already changes
  nothing; a filtered attempt that the backend rejects with the capability error records
  every key of the filter; once a key \<open>k\<close> is recorded, no later request ever sends the
  backend a search filtered on \<open>k\<close>, and a search whose filter uses \<open>k\<close> is exactly the
  manual fallback: one widened, unfiltered backend call.
\<close>

theorem capability_learning_sticky:
  "broken_filters s \<subseteq> broken_filters (serve_all sv reqs s)
   \<and> learn_broken fd (learn_broken fd s) = learn_broken fd s
   \<and> (fst ` set fd \<subseteq> broken_filters s \<longrightarrow> learn_broken fd s = s)
   \<and> (\<not> known_broken s (Some fd) \<and> fd \<noteq> []
        \<and> aggregate sv (trace s) c (p\<lparr>sp_filter := Some fd\<rparr>) = Inl (OperationFailure m)
        \<and> contains_str ''indexed as filter'' m
      \<longrightarrow> fst ` set fd \<subseteq> broken_filters (snd (execute_resilient_search sv c p (Some fd) s)))
   \<and> (k \<in> broken_filters s \<longrightarrow>
        list_all (\<lambda>e. \<not> is_filtered_on k e) (new_events s (serve_all sv reqs s)))
   \<and> (k \<in> broken_filters s \<and> list_ex (\<lambda>kv. fst kv = k) fd \<longrightarrow>
        execute_resilient_search sv c p (Some fd) s = manual_fallback sv c p fd s
        \<and> new_events s (snd (execute_resilient_search sv c p (Some fd) s))
            = [Aggregate c (widened p)])"
proof (intro conjI impI)
  show "broken_filters s \<subseteq> broken_filters (serve_all sv reqs s)" by (rule serve_all_mono)
  show "learn_broken fd (learn_broken fd s) = learn_broken fd s" by (rule learn_broken_idem)
  show "learn_broken fd s = s" if "fst ` set fd \<subseteq> broken_filters s"
    using that by (rule learn_broken_noop)
  show "fst ` set fd \<subseteq> broken_filters (snd (execute_resilient_search sv c p (Some fd) s))"
    if "\<not> known_broken s (Some fd) \<and> fd \<noteq> []
        \<and> aggregate sv (trace s) c (p\<lparr>sp_filter := Some fd\<rparr>) = Inl (OperationFailure m)
        \<and> contains_str ''indexed as filter'' m"
    using that ers_learns by blast
  show "list_all (\<lambda>e. \<not> is_filtered_on k e) (new_events s (serve_all sv reqs s))"
    if "k \<in> broken_filters s" using that by (rule serve_all_sticky)
  show "execute_resilient_search sv c p (Some fd) s = manual_fallback sv c p fd s"
    if "k \<in> broken_filters s \<and> list_ex (\<lambda>kv. fst kv = k) fd"
    using that ers_direct_fallback(1) by blast
  show "new_events s (snd (execute_resilient_search sv c p (Some fd) s)) = [Aggregate c (widened p)]"
    if "k \<in> broken_filters s \<and> list_ex (\<lambda>kv. fst kv = k) fd"
    using that ers_direct_fallback(2) by blast
qed

lemma learned_state_eq:
  "learned_state =
     \<lparr>broken_filters = {''style'', ''category''},
      trace = [Aggregate Unified_nodes (probe_params\<lparr>sp_filter := Some style_filter\<rparr>),
               Aggregate Unified_nodes (widened probe_params)]\<rparr>"
  by (simp add: learned_state_def unified_search_def execute_resilient_search_def known_broken_def
      init_handler_def style_filter_def run_aggregate_def record_event_def strict_backend_def
      manual_fallback_def bindE_def returnE_def learn_broken_def probe_params_def widened_def)

theorem capability_learning_sticky_witness:
  "\<not> known_broken init_handler (Some style_filter) \<and> style_filter \<noteq> []
   \<and> aggregate strict_backend (trace init_handler) Unified_nodes
        (probe_params\<lparr>sp_filter := Some style_filter\<rparr>)
        = Inl (OperationFailure ''Path needs to be indexed as filter'')
   \<and> contains_str ''indexed as filter'' ''Path needs to be indexed as filter''
   \<and> fst ` set style_filter
        \<subseteq> broken_filters (snd (execute_resilient_search strict_backend Unified_nodes probe_params
                                    (Some style_filter) init_handler))
   \<and> ''style'' \<in> broken_filters learned_state
   \<and> list_ex (\<lambda>kv. fst kv = ''style'') style_filter
   \<and> fst ` set style_filter \<subseteq> broken_filters learned_state
   \<and> learn_broken style_filter learned_state = learned_state
   \<and> new_events learned_state
        (snd (execute_resilient_search strict_backend Unified_nodes probe_params
                (Some style_filter) learned_state))
        = [Aggregate Unified_nodes (widened probe_params)]
   \<and> list_all (\<lambda>e. \<not> is_filtered_on ''style'' e)
        (new_events learned_state
           (serve_all strict_backend
              [UnifiedSearch [1, 0] 5 (Some style_filter), VectorSearch [1, 0] 3 (Some style_filter)]
              learned_state))"
proof -
  have h1: "\<not> known_broken init_handler (Some style_filter) \<and> style_filter \<noteq> []
      \<and> aggregate strict_backend (trace init_handler) Unified_nodes
           (probe_params\<lparr>sp_filter := Some style_filter\<rparr>)
           = Inl (OperationFailure ''Path needs to be indexed as filter'')
      \<and> contains_str ''indexed as filter'' ''Path needs to be indexed as filter''"
    by (simp add: known_broken_def init_handler_def style_filter_def strict_backend_def
        probe_params_def)
  have h2: "''style'' \<in> broken_filters learned_state"
    by (simp add: learned_state_eq)
  have h3: "list_ex (\<lambda>kv. fst kv = ''style'') style_filter"
    by (simp add: style_filter_def)
  have h4: "fst ` set style_filter \<subseteq> broken_filters learned_state"
    by (simp add: learned_state_eq style_filter_def)
  note a = capability_learning_sticky [where s = init_handler and sv = strict_backend
      and fd = style_filter and c = Unified_nodes and p = probe_params
      and m = "''Path needs to be indexed as filter''"]
  note b = capability_learning_sticky [where s = learned_state and sv = strict_backend
      and fd = style_filter and c = Unified_nodes and p = probe_params and k = "''style''"
      and reqs = "[UnifiedSearch [1, 0] 5 (Some style_filter), VectorSearch [1, 0] 3 (Some style_filter)]"]
  show ?thesis using h1 h2 h3 h4 a b by blast
qed

text \<open>
  Claim C9. A freshly constructed handler already holds the key \<open>category\<close>, and keeps it
  whatever requests it serves; so from the very first request on no search filtered on
  \<open>category\<close> reaches the backend, and a search whose filter has the key \<open>category\<close> is the
  fallback: one widened, unfiltered backend call whose results are filtered locally and cut
  to the requested limit.
\<close>

theorem category_known_broken_from_construction:
  "''category'' \<in> broken_filters init_handler
   \<and> ''category'' \<in> broken_filters (serve_all sv reqs init_handler)
   \<and> list_all (\<lambda>e. \<not> is_filtered_on ''category'' e) (trace (serve_all sv reqs init_handler))
   \<and> (list_ex (\<lambda>kv. fst kv = ''category'') fd \<longrightarrow>
        execute_resilient_search sv c p (Some fd) (serve_all sv reqs init_handler)
          = manual_fallback sv c p fd (serve_all sv reqs init_handler)
        \<and> new_events (serve_all sv reqs init_handler)
            (snd (execute_resilient_search sv c p (Some fd) (serve_all sv reqs init_handler)))
            = [Aggregate c (widened p)]
        \<and> fst (execute_resilient_search sv c p (Some fd) (serve_all sv reqs init_handler))
            = (case aggregate sv (trace (serve_all sv reqs init_handler)) c (widened p) of
                 Inl e \<Rightarrow> Inl e
               | Inr results \<Rightarrow> Inr (take (sp_limit p) (filter (matches_filter fd) results))))"
proof -
  let ?s = "serve_all sv reqs init_handler"
  have c0: "''category'' \<in> broken_filters init_handler"
    by (simp add: init_handler_def)
  have c1: "''category'' \<in> broken_filters ?s"
    using c0 serve_all_mono [of init_handler sv reqs] by blast
  have c2: "list_all (\<lambda>e. \<not> is_filtered_on ''category'' e) (trace ?s)"
    using serve_all_sticky [OF c0, of sv reqs] by (simp add: new_events_def init_handler_def)
  have c3: "execute_resilient_search sv c p (Some fd) ?s = manual_fallback sv c p fd ?s
      \<and> new_events ?s (snd (execute_resilient_search sv c p (Some fd) ?s)) = [Aggregate c (widened p)]
      \<and> fst (execute_resilient_search sv c p (Some fd) ?s)
            = (case aggregate sv (trace ?s) c (widened p) of
                 Inl e \<Rightarrow> Inl e
               | Inr results \<Rightarrow> Inr (take (sp_limit p) (filter (matches_filter fd) results)))"
    if "list_ex (\<lambda>kv. fst kv = ''category'') fd"
    using ers_direct_fallback [OF c1 that, of sv c p] by (simp add: manual_fallback_result)
  show ?thesis using c0 c1 c2 c3 by blast
qed

theorem category_known_broken_from_construction_witness:
  "list_ex (\<lambda>kv. fst kv = ''category'') category_request
   \<and> new_events init_handler
        (snd (execute_resilient_search strict_backend Unified_nodes probe_params
                (Some category_request) init_handler))
        = [Aggregate Unified_nodes (widened probe_params)]
   \<and> fst (execute_resilient_search strict_backend Unified_nodes probe_params
            (Some category_request) init_handler) = Inr [doc_a]"
proof -
  have h: "list_ex (\<lambda>kv. fst kv = ''category'') category_request"
    by (simp add: category_request_def)
  have r: "(case aggregate strict_backend (trace (serve_all strict_backend [] init_handler))
                   Unified_nodes (widened probe_params) of
              Inl e \<Rightarrow> Inl e
            | Inr results \<Rightarrow>
                Inr (take (sp_limit probe_params) (filter (matches_filter category_request) results)))
           = Inr [doc_a]"
    by (simp add: strict_backend_def widened_def probe_params_def matches_filter_def
        category_request_def doc_get_def doc_a_def doc_b_def)
  note t = category_known_broken_from_construction [where sv = strict_backend and reqs = "[]"
        and fd = category_request and c = Unified_nodes and p = probe_params,
        unfolded serve_all.simps]
  from h t have
    "new_events init_handler
        (snd (execute_resilient_search strict_backend Unified_nodes probe_params
                (Some category_request) init_handler))
        = [Aggregate Unified_nodes (widened probe_params)]"
    by blast
  moreover from h t have
    "fst (execute_resilient_search strict_backend Unified_nodes probe_params
            (Some category_request) init_handler)
       = (case aggregate strict_backend (trace init_handler) Unified_nodes (widened probe_params) of
            Inl e \<Rightarrow> Inl e
          | Inr results \<Rightarrow>
              Inr (take (sp_limit probe_params) (filter (matches_filter category_request) results)))"
    by blast
  ultimately show ?thesis using h r [unfolded serve_all.simps] by simp
qed

section \<open>Properties of reciprocal rank fusion\<close>


lemma distinct_first_seen [simp]: "distinct (first_seen xs)"
  by (induction xs) auto







lemma score_of_update:
  "score_of (AList.update j v fs) i = (if i = j then v else score_of fs i)"
  by (simp add: score_of_def update_conv')

lemma rrf_scan_scores:
  "score_of (fst (rrf_scan k r ds tabs)) i = score_of (fst tabs) i + entry_scores k r i ds"
proof (induction ds arbitrary: r tabs)
  case Nil
  show ?case by simp
next
  case (Cons d ds)
  have "score_of (fst (rrf_visit k r d tabs)) i
          = score_of (fst tabs) i + (if doc_key d = i then 1 / (real r + real k) else 0)"
    by (auto simp: rrf_visit_def Let_def score_of_update) (simp add: score_of_def)
  then show ?case using Cons [of "Suc r" "rrf_visit k r d tabs"] by simp
qed


lemma rrf_fold_scores:
  "score_of (fst (foldl (\<lambda>tabs results. rrf_scan k 0 results tabs) tabs ls)) i =
     score_of (fst tabs) i + sum_list (map (entry_scores k 0 i) ls)"
  by (induction ls arbitrary: tabs) (simp_all add: rrf_scan_scores)


lemma fused_score_eq: "fused_score k ls i = sum_entry_scores k ls i"
proof -
  have "score_of (fst ([], [])) i = 0" by (simp add: score_of_def)
  then show ?thesis
    by (simp add: fused_score_def rrf_tables_of_def rrf_fold_scores sum_entry_scores_def)
qed


lemma rank_from_absent: "i \<notin> set (map doc_key ds) \<Longrightarrow> rank_from r i ds = None"
  by (induction ds arbitrary: r) auto


















lemma sort_desc_sorted: "sorted (map (\<lambda>x. - key x) (take n (sort_desc key xs)))"
proof -
  have "sorted (map (\<lambda>x. - key x) (sort_desc key xs))"
    unfolding sort_desc_def by (rule sorted_sort_key)
  then have "sorted (take n (map (\<lambda>x. - key x) (sort_desc key xs)))"
    by (rule sorted_wrt_take)
  then show ?thesis by (simp add: take_map)
qed






lemma entry_scores_append:
  "entry_scores k r i (xs @ ys) = entry_scores k r i xs + entry_scores k (r + length xs) i ys"
  by (induction xs arbitrary: r) simp_all

lemma entry_scores_nonneg: "0 \<le> entry_scores k r i ds"
  by (induction ds arbitrary: r) simp_all

lemma entry_scores_shift:
  "0 < k \<Longrightarrow> entry_scores k (Suc r) i ds \<le> entry_scores k r i ds"
proof (induction ds arbitrary: r)
  case Nil
  show ?case by simp
next
  case (Cons d ds)
  have "1 / (real (Suc r) + real k) \<le> 1 / (real r + real k)"
    using Cons.prems by (simp add: frac_le)
  then show ?case using Cons.IH [OF Cons.prems, of "Suc r"] by auto
qed

lemma entry_scores_insert:
  assumes "0 < k"
  shows "entry_scores k r i c \<le> 1 / (real r + real k) + entry_scores k (Suc r) i c"
proof (induction c arbitrary: r)
  case Nil
  show ?case by simp
next
  case (Cons d ds)
  have m: "1 / (real (Suc r) + real k) \<le> 1 / (real r + real k)"
    using assms by (simp add: frac_le)
  show ?case using Cons [of "Suc r"] m by auto
qed

lemma entry_scores_move:
  assumes "0 < k"
  shows "entry_scores k r i b + 1 / (real (r + length b) + real k)
           \<le> 1 / (real r + real k) + entry_scores k (Suc r) i b"
proof (induction b arbitrary: r)
  case Nil
  show ?case by simp
next
  case (Cons d ds)
  have m: "1 / (real (Suc r) + real k) \<le> 1 / (real r + real k)"
    using assms by (simp add: frac_le)
  show ?case using Cons [of "Suc r"] m by auto
qed

lemma sum_entry_scores_split:
  "sum_entry_scores k (ls1 @ xs # ls2) i
     = sum_entry_scores k ls1 i + entry_scores k 0 i xs + sum_entry_scores k ls2 i"
  by (simp add: sum_entry_scores_def)

text \<open>
  Claim C6. With \<open>k = 60\<close> the fused score of a document never decreases when a further list
  is added, when an entry for the document is inserted into a list at any rank, or when its
  entry in a list is moved to a smaller rank (equivalently: inserted at the smaller rather
  than the larger rank).
\<close>

theorem reciprocal_rank_fusion_monotonic:
  "fused_score 60 (ls1 @ ls2) i \<le> fused_score 60 (ls1 @ [xs] @ ls2) i
   \<and> fused_score 60 (ls1 @ [a @ c] @ ls2) (doc_key x)
       \<le> fused_score 60 (ls1 @ [a @ [x] @ c] @ ls2) (doc_key x)
   \<and> fused_score 60 (ls1 @ [a @ b @ [x] @ c] @ ls2) (doc_key x)
       \<le> fused_score 60 (ls1 @ [a @ [x] @ b @ c] @ ls2) (doc_key x)"
proof (intro conjI)
  show "fused_score 60 (ls1 @ ls2) i \<le> fused_score 60 (ls1 @ [xs] @ ls2) i"
    using entry_scores_nonneg [of 60 0 i xs]
    by (simp add: fused_score_eq sum_entry_scores_def)
  show "fused_score 60 (ls1 @ [a @ c] @ ls2) (doc_key x)
       \<le> fused_score 60 (ls1 @ [a @ [x] @ c] @ ls2) (doc_key x)"
    using entry_scores_insert [of 60 "length a" "doc_key x" c]
    by (simp add: fused_score_eq sum_entry_scores_split entry_scores_append)
  show "fused_score 60 (ls1 @ [a @ b @ [x] @ c] @ ls2) (doc_key x)
       \<le> fused_score 60 (ls1 @ [a @ [x] @ b @ c] @ ls2) (doc_key x)"
    using entry_scores_move [of 60 "length a" "doc_key x" b]
    by (simp add: fused_score_eq sum_entry_scores_split entry_scores_append)
qed

section \<open>Properties of image retrieval\<close>

lemma foldl_invariant:
  assumes "P acc" and "\<And>a x. x \<in> set xs \<Longrightarrow> P a \<Longrightarrow> P (f a x)"
  shows "P (foldl f acc xs)"
  using assms by (induction xs arbitrary: acc) simp_all

lemma format_image_path_score [simp]:
  "o_score (format_image_path (img\<lparr>i_score := Some v\<rparr>) parent) = v"
  by (simp add: format_image_path_def Let_def)

lemma format_image_path_path:
  "image_key img = Some p \<Longrightarrow> p \<noteq> [] \<Longrightarrow>
     o_image_path (format_image_path (img\<lparr>i_score := v\<rparr>) parent) = p"
  by (cases "i_image_path img")
     (auto simp: format_image_path_def Let_def image_key_def split: if_splits)

lemma visual_image_cases:
  "visual_image sv q node acc img = acc
   \<or> (\<exists>p emb. image_key img = Some p \<and> p \<noteq> [] \<and> p \<notin> snd acc
        \<and> i_clip_embedding img = Some emb \<and> 0.22 < cos_sim sv q emb
        \<and> visual_image sv q node acc img
            = (fst acc @ [format_image_path (img\<lparr>i_score := Some (cos_sim sv q emb)\<rparr>) (Some node)],
               insert p (snd acc)))"
  by (auto simp: visual_image_def Let_def split: option.splits)

lemma text_image_cases:
  "text_image sv q d acc img = acc
   \<or> (\<exists>p emb. image_key img = Some p \<and> p \<noteq> [] \<and> p \<notin> snd acc
        \<and> i_clip_embedding img = Some emb \<and> 0.22 < cos_sim sv q emb * 1.15
        \<and> text_image sv q d acc img
            = (fst acc @ [format_image_path (img\<lparr>i_score := Some (cos_sim sv q emb * 1.15)\<rparr>) (Some d)],
               insert p (snd acc)))"
  by (auto simp: text_image_def Let_def split: option.splits)

text \<open>The paths of the candidates are exactly the seen paths, each once.\<close>

lemma paths_extend:
  assumes "set (map o_image_path cands) = seen \<and> distinct (map o_image_path cands)"
    and "p \<notin> seen" and "o_image_path e = p"
  shows "set (map o_image_path (cands @ [e])) = insert p seen
         \<and> distinct (map o_image_path (cands @ [e]))"
proof -
  from assms(1,2) have "p \<notin> set (map o_image_path cands)" by blast
  with assms show ?thesis by auto
qed

lemma visual_image_paths:
  assumes "set (map o_image_path (fst acc)) = snd acc \<and> distinct (map o_image_path (fst acc))"
  shows "set (map o_image_path (fst (visual_image sv q node acc img))) = snd (visual_image sv q node acc img)
         \<and> distinct (map o_image_path (fst (visual_image sv q node acc img)))"
proof -
  from visual_image_cases [of sv q node acc img] show ?thesis
  proof (elim disjE exE conjE)
    assume "visual_image sv q node acc img = acc"
    then show ?thesis using assms by simp
  next
    fix p emb
    assume p: "image_key img = Some p" "p \<noteq> []" "p \<notin> snd acc"
      and eq: "visual_image sv q node acc img
            = (fst acc @ [format_image_path (img\<lparr>i_score := Some (cos_sim sv q emb)\<rparr>) (Some node)],
               insert p (snd acc))"
    show ?thesis
      unfolding eq fst_conv snd_conv
      by (rule paths_extend [OF assms p(3)]) (simp add: format_image_path_path [OF p(1,2)])
  qed
qed

lemma text_image_paths:
  assumes "set (map o_image_path (fst acc)) = snd acc \<and> distinct (map o_image_path (fst acc))"
  shows "set (map o_image_path (fst (text_image sv q d acc img))) = snd (text_image sv q d acc img)
         \<and> distinct (map o_image_path (fst (text_image sv q d acc img)))"
proof -
  from text_image_cases [of sv q d acc img] show ?thesis
  proof (elim disjE exE conjE)
    assume "text_image sv q d acc img = acc"
    then show ?thesis using assms by simp
  next
    fix p emb
    assume p: "image_key img = Some p" "p \<noteq> []" "p \<notin> snd acc"
      and eq: "text_image sv q d acc img
            = (fst acc @ [format_image_path (img\<lparr>i_score := Some (cos_sim sv q emb * 1.15)\<rparr>) (Some d)],
               insert p (snd acc))"
    show ?thesis
      unfolding eq fst_conv snd_conv
      by (rule paths_extend [OF assms p(3)]) (simp add: format_image_path_path [OF p(1,2)])
  qed
qed

lemma visual_pass_paths:
  assumes "set (map o_image_path (fst acc)) = snd acc \<and> distinct (map o_image_path (fst acc))"
  shows "set (map o_image_path (fst (visual_pass sv q nodes acc))) = snd (visual_pass sv q nodes acc)
         \<and> distinct (map o_image_path (fst (visual_pass sv q nodes acc)))"
  unfolding visual_pass_def
proof (rule foldl_invariant [where P = "\<lambda>a. set (map o_image_path (fst a)) = snd a \<and> distinct (map o_image_path (fst a))"])
  show "set (map o_image_path (fst acc)) = snd acc \<and> distinct (map o_image_path (fst acc))"
    by (rule assms)
next
  fix a :: candidates and node
  assume a: "set (map o_image_path (fst a)) = snd a \<and> distinct (map o_image_path (fst a))"
  show "set (map o_image_path (fst (case d_related_images node of None \<Rightarrow> a
            | Some imgs \<Rightarrow> foldl (visual_image sv q node) a imgs)))
        = snd (case d_related_images node of None \<Rightarrow> a | Some imgs \<Rightarrow> foldl (visual_image sv q node) a imgs)
      \<and> distinct (map o_image_path (fst (case d_related_images node of None \<Rightarrow> a
            | Some imgs \<Rightarrow> foldl (visual_image sv q node) a imgs)))"
  proof (cases "d_related_images node")
    case None
    then show ?thesis using a by simp
  next
    case (Some imgs)
    have "set (map o_image_path (fst (foldl (visual_image sv q node) a imgs)))
            = snd (foldl (visual_image sv q node) a imgs)
          \<and> distinct (map o_image_path (fst (foldl (visual_image sv q node) a imgs)))"
      by (rule foldl_invariant [where P = "\<lambda>a. set (map o_image_path (fst a)) = snd a \<and> distinct (map o_image_path (fst a))"])
         (use a visual_image_paths in blast)+
    then show ?thesis using Some by simp
  qed
qed

lemma text_pass_paths:
  assumes "set (map o_image_path (fst acc)) = snd acc \<and> distinct (map o_image_path (fst acc))"
  shows "set (map o_image_path (fst (text_pass sv q docs acc))) = snd (text_pass sv q docs acc)
         \<and> distinct (map o_image_path (fst (text_pass sv q docs acc)))"
  unfolding text_pass_def
proof (rule foldl_invariant [where P = "\<lambda>a. set (map o_image_path (fst a)) = snd a \<and> distinct (map o_image_path (fst a))"])
  show "set (map o_image_path (fst acc)) = snd acc \<and> distinct (map o_image_path (fst acc))"
    by (rule assms)
next
  fix a :: candidates and d
  assume a: "set (map o_image_path (fst a)) = snd a \<and> distinct (map o_image_path (fst a))"
  show "set (map o_image_path (fst (case d_related_images d of None \<Rightarrow> a
            | Some imgs \<Rightarrow> foldl (text_image sv q d) a imgs)))
        = snd (case d_related_images d of None \<Rightarrow> a | Some imgs \<Rightarrow> foldl (text_image sv q d) a imgs)
      \<and> distinct (map o_image_path (fst (case d_related_images d of None \<Rightarrow> a
            | Some imgs \<Rightarrow> foldl (text_image sv q d) a imgs)))"
  proof (cases "d_related_images d")
    case None
    then show ?thesis using a by simp
  next
    case (Some imgs)
    have "set (map o_image_path (fst (foldl (text_image sv q d) a imgs)))
            = snd (foldl (text_image sv q d) a imgs)
          \<and> distinct (map o_image_path (fst (foldl (text_image sv q d) a imgs)))"
      by (rule foldl_invariant [where P = "\<lambda>a. set (map o_image_path (fst a)) = snd a \<and> distinct (map o_image_path (fst a))"])
         (use a text_image_paths in blast)+
    then show ?thesis using Some by simp
  qed
qed

lemma visual_entry_iff:
  "visual_entry sv q nodes e =
     (\<exists>node \<in> set nodes. \<exists>img \<in> set (images_of node). \<exists>emb.
        i_clip_embedding img = Some emb \<and> 0.22 < cos_sim sv q emb
        \<and> e = format_image_path (img\<lparr>i_score := Some (cos_sim sv q emb)\<rparr>) (Some node))"
proof
  assume "visual_entry sv q nodes e"
  then show "\<exists>node \<in> set nodes. \<exists>img \<in> set (images_of node). \<exists>emb.
        i_clip_embedding img = Some emb \<and> 0.22 < cos_sim sv q emb
        \<and> e = format_image_path (img\<lparr>i_score := Some (cos_sim sv q emb)\<rparr>) (Some node)"
    unfolding visual_entry_def list_ex_iff by (fastforce split: option.splits)
next
  assume "\<exists>node \<in> set nodes. \<exists>img \<in> set (images_of node). \<exists>emb.
        i_clip_embedding img = Some emb \<and> 0.22 < cos_sim sv q emb
        \<and> e = format_image_path (img\<lparr>i_score := Some (cos_sim sv q emb)\<rparr>) (Some node)"
  then obtain node img emb where w: "node \<in> set nodes" "img \<in> set (images_of node)"
    "i_clip_embedding img = Some emb" "0.22 < cos_sim sv q emb"
    "e = format_image_path (img\<lparr>i_score := Some (cos_sim sv q emb)\<rparr>) (Some node)"
    by blast
  show "visual_entry sv q nodes e"
    unfolding visual_entry_def list_ex_iff
    by (rule bexI [OF _ w(1)], rule bexI [OF _ w(2)]) (use w(3,4,5) in simp)
qed

lemma text_entry_iff:
  "text_entry sv q docs e =
     (\<exists>d \<in> set docs. \<exists>img \<in> set (images_of d). \<exists>emb.
        i_clip_embedding img = Some emb \<and> 0.22 < cos_sim sv q emb * 1.15
        \<and> e = format_image_path (img\<lparr>i_score := Some (cos_sim sv q emb * 1.15)\<rparr>) (Some d))"
proof
  assume "text_entry sv q docs e"
  then show "\<exists>d \<in> set docs. \<exists>img \<in> set (images_of d). \<exists>emb.
        i_clip_embedding img = Some emb \<and> 0.22 < cos_sim sv q emb * 1.15
        \<and> e = format_image_path (img\<lparr>i_score := Some (cos_sim sv q emb * 1.15)\<rparr>) (Some d)"
    unfolding text_entry_def list_ex_iff by (fastforce split: option.splits)
next
  assume "\<exists>d \<in> set docs. \<exists>img \<in> set (images_of d). \<exists>emb.
        i_clip_embedding img = Some emb \<and> 0.22 < cos_sim sv q emb * 1.15
        \<and> e = format_image_path (img\<lparr>i_score := Some (cos_sim sv q emb * 1.15)\<rparr>) (Some d)"
  then obtain d img emb where w: "d \<in> set docs" "img \<in> set (images_of d)"
    "i_clip_embedding img = Some emb" "0.22 < cos_sim sv q emb * 1.15"
    "e = format_image_path (img\<lparr>i_score := Some (cos_sim sv q emb * 1.15)\<rparr>) (Some d)"
    by blast
  show "text_entry sv q docs e"
    unfolding text_entry_def list_ex_iff
    by (rule bexI [OF _ w(1)], rule bexI [OF _ w(2)]) (use w(3,4,5) in simp)
qed

lemma visual_entry_score: "visual_entry sv q nodes e \<Longrightarrow> 0.22 < o_score e"
  by (auto simp: visual_entry_iff)

lemma text_entry_score: "text_entry sv q docs e \<Longrightarrow> 0.22 < o_score e"
  by (auto simp: text_entry_iff)

lemma visual_image_entries:
  assumes "node \<in> set nodes" "img \<in> set (images_of node)"
    and "\<forall>e \<in> set (fst acc). visual_entry sv q nodes e"
  shows "\<forall>e \<in> set (fst (visual_image sv q node acc img)). visual_entry sv q nodes e"
proof -
  from visual_image_cases [of sv q node acc img] show ?thesis
  proof (elim disjE exE conjE)
    assume "visual_image sv q node acc img = acc"
    then show ?thesis using assms(3) by simp
  next
    fix p emb
    assume emb: "i_clip_embedding img = Some emb" "0.22 < cos_sim sv q emb"
      and eq: "visual_image sv q node acc img
            = (fst acc @ [format_image_path (img\<lparr>i_score := Some (cos_sim sv q emb)\<rparr>) (Some node)],
               insert p (snd acc))"
    have "visual_entry sv q nodes (format_image_path (img\<lparr>i_score := Some (cos_sim sv q emb)\<rparr>) (Some node))"
      unfolding visual_entry_iff using assms(1,2) emb by blast
    then show ?thesis unfolding eq using assms(3) by simp
  qed
qed

lemma visual_pass_entries:
  "\<forall>e \<in> set (fst (visual_pass sv q nodes ([], {}))). visual_entry sv q nodes e"
  unfolding visual_pass_def
proof (rule foldl_invariant [where P = "\<lambda>a. \<forall>e \<in> set (fst a). visual_entry sv q nodes e"])
  show "\<forall>e \<in> set (fst ([] :: out_image list, {} :: string set)). visual_entry sv q nodes e" by simp
next
  fix a :: candidates and node
  assume node: "node \<in> set nodes" and a: "\<forall>e \<in> set (fst a). visual_entry sv q nodes e"
  show "\<forall>e \<in> set (fst (case d_related_images node of None \<Rightarrow> a
            | Some imgs \<Rightarrow> foldl (visual_image sv q node) a imgs)). visual_entry sv q nodes e"
  proof (cases "d_related_images node")
    case None
    then show ?thesis using a by simp
  next
    case (Some imgs)
    then have imgs: "images_of node = imgs" by (simp add: images_of_def)
    have "\<forall>e \<in> set (fst (foldl (visual_image sv q node) a imgs)). visual_entry sv q nodes e"
    proof (rule foldl_invariant [where P = "\<lambda>a. \<forall>e \<in> set (fst a). visual_entry sv q nodes e"])
      show "\<forall>e \<in> set (fst a). visual_entry sv q nodes e" by (rule a)
    next
      fix b :: candidates and img
      assume "img \<in> set imgs" and "\<forall>e \<in> set (fst b). visual_entry sv q nodes e"
      then show "\<forall>e \<in> set (fst (visual_image sv q node b img)). visual_entry sv q nodes e"
        using visual_image_entries [OF node, of img b sv q] imgs by simp
    qed
    then show ?thesis using Some by simp
  qed
qed

text \<open>The text-context pass only appends entries of its own to what it is given.\<close>

lemma text_image_appends:
  assumes "d \<in> set docs" "img \<in> set (images_of d)"
    and "\<exists>new. fst acc = base @ new \<and> (\<forall>e \<in> set new. text_entry sv q docs e)"
  shows "\<exists>new. fst (text_image sv q d acc img) = base @ new \<and> (\<forall>e \<in> set new. text_entry sv q docs e)"
proof -
  from assms(3) obtain new where new: "fst acc = base @ new" "\<forall>e \<in> set new. text_entry sv q docs e"
    by blast
  from text_image_cases [of sv q d acc img] show ?thesis
  proof (elim disjE exE conjE)
    assume "text_image sv q d acc img = acc"
    then show ?thesis using assms(3) by simp
  next
    fix p emb
    assume emb: "i_clip_embedding img = Some emb" "0.22 < cos_sim sv q emb * 1.15"
      and eq: "text_image sv q d acc img
            = (fst acc @ [format_image_path (img\<lparr>i_score := Some (cos_sim sv q emb * 1.15)\<rparr>) (Some d)],
               insert p (snd acc))"
    let ?e = "format_image_path (img\<lparr>i_score := Some (cos_sim sv q emb * 1.15)\<rparr>) (Some d)"
    have "text_entry sv q docs ?e"
      unfolding text_entry_iff using assms(1,2) emb by blast
    then have "fst (text_image sv q d acc img) = base @ (new @ [?e])
        \<and> (\<forall>e \<in> set (new @ [?e]). text_entry sv q docs e)"
      unfolding eq using new by simp
    then show ?thesis by blast
  qed
qed

lemma text_pass_appends:
  "\<exists>new. fst (text_pass sv q docs acc) = fst acc @ new \<and> (\<forall>e \<in> set new. text_entry sv q docs e)"
  unfolding text_pass_def
proof (rule foldl_invariant
    [where P = "\<lambda>a. \<exists>new. fst a = fst acc @ new \<and> (\<forall>e \<in> set new. text_entry sv q docs e)"])
  show "\<exists>new. fst acc = fst acc @ new \<and> (\<forall>e \<in> set new. text_entry sv q docs e)" by simp
next
  fix a :: candidates and d
  assume d: "d \<in> set docs"
    and a: "\<exists>new. fst a = fst acc @ new \<and> (\<forall>e \<in> set new. text_entry sv q docs e)"
  show "\<exists>new. fst (case d_related_images d of None \<Rightarrow> a
            | Some imgs \<Rightarrow> foldl (text_image sv q d) a imgs) = fst acc @ new
          \<and> (\<forall>e \<in> set new. text_entry sv q docs e)"
  proof (cases "d_related_images d")
    case None
    then show ?thesis using a by simp
  next
    case (Some imgs)
    then have imgs: "images_of d = imgs" by (simp add: images_of_def)
    have "\<exists>new. fst (foldl (text_image sv q d) a imgs) = fst acc @ new
            \<and> (\<forall>e \<in> set new. text_entry sv q docs e)"
    proof (rule foldl_invariant
        [where P = "\<lambda>a. \<exists>new. fst a = fst acc @ new \<and> (\<forall>e \<in> set new. text_entry sv q docs e)"])
      show "\<exists>new. fst a = fst acc @ new \<and> (\<forall>e \<in> set new. text_entry sv q docs e)" by (rule a)
    next
      fix b :: candidates and img
      assume "img \<in> set imgs"
        and "\<exists>new. fst b = fst acc @ new \<and> (\<forall>e \<in> set new. text_entry sv q docs e)"
      then show "\<exists>new. fst (text_image sv q d b img) = fst acc @ new
            \<and> (\<forall>e \<in> set new. text_entry sv q docs e)"
        using text_image_appends [OF d, of img b "fst acc" sv q] imgs by simp
    qed
    then show ?thesis using Some by simp
  qed
qed

lemma all_candidates_split:
  "\<exists>new. fst (all_candidate_images sv q nodes text_docs)
            = fst (visual_pass sv q nodes ([], {})) @ new
          \<and> (\<forall>e \<in> set new. text_entry sv q (docs_of text_docs) e)"
proof (cases "truthy_docs text_docs")
  case True
  then show ?thesis
    using text_pass_appends [of sv q "docs_of text_docs" "visual_pass sv q nodes ([], {})"]
    by (simp add: all_candidate_images_def Let_def)
next
  case False
  then show ?thesis by (simp add: all_candidate_images_def Let_def)
qed

lemma all_candidates_distinct:
  "distinct (map o_image_path (fst (all_candidate_images sv q nodes text_docs)))"
proof -
  have v: "set (map o_image_path (fst (visual_pass sv q nodes ([], {})))) = snd (visual_pass sv q nodes ([], {}))
      \<and> distinct (map o_image_path (fst (visual_pass sv q nodes ([], {}))))"
    by (rule visual_pass_paths) simp
  show ?thesis
  proof (cases "truthy_docs text_docs")
    case True
    then show ?thesis
      using text_pass_paths [OF v, of sv q "docs_of text_docs"]
      by (simp add: all_candidate_images_def Let_def)
  next
    case False
    then show ?thesis using v by (simp add: all_candidate_images_def Let_def)
  qed
qed

lemma all_candidates_entries:
  "\<forall>e \<in> set (fst (all_candidate_images sv q nodes text_docs)).
     visual_entry sv q nodes e \<or> text_entry sv q (docs_of text_docs) e"
  using all_candidates_split [of sv q nodes text_docs] visual_pass_entries [of sv q nodes]
  by auto

lemma retrieve_images_result:
  assumes "strict_visual_search sv (get_clip_text_embedding sv query) category 20
             (record_event (ImgSearch query category lmt text_docs) s) = (Inr nodes, s')"
  shows "retrieve_images sv query category lmt text_docs s =
           (Inr (take lmt (sort_desc o_score
                   (fst (all_candidate_images sv (get_clip_text_embedding sv query) nodes text_docs)))),
            s')"
  using assms by (simp add: retrieve_images_def Let_def bindE_def returnE_def)

lemma ranked_subset: "set (take lmt (sort_desc key xs)) \<subseteq> set xs"
  using set_take_subset [of lmt "sort_desc key xs"] by (simp add: sort_desc_def)

lemma ranked_distinct: "distinct (map f xs) \<Longrightarrow> distinct (map f (take lmt (sort_desc key xs)))"
proof -
  assume "distinct (map f xs)"
  then have "distinct (map f (sort_desc key xs))"
    by (simp add: distinct_map sort_desc_def)
  then have "distinct (take lmt (map f (sort_desc key xs)))" by (rule distinct_take)
  then show ?thesis by (simp add: take_map)
qed

lemma gallery_visual_search:
  "strict_visual_search gallery (get_clip_text_embedding gallery ''wrench'') None 20
     (record_event (ImgSearch ''wrench'' None 12 docs) init_handler)
   = (Inr [node_visual], after_image_search ''wrench'' docs)"
  by (simp add: strict_visual_search_def execute_resilient_search_def known_broken_def
      run_aggregate_def record_event_def init_handler_def gallery_def after_image_search_def)

lemma format_strong:
  "format_image_path (img_strong\<lparr>i_score := Some (27 / 100)\<rparr>) (Some node_visual) = entry_strong"
  by (simp add: format_image_path_def Let_def img_strong_def node_visual_def entry_strong_def
      pdf_mapping_def lower_def to_lower_def ascii_uppercase_def ascii_lowercase_def
      title_def is_ascii_lower_def is_ascii_upper_def to_upper_def str_of_nat.simps digits_def)

lemma format_context:
  "format_image_path (img_context\<lparr>i_score := Some (23 / 80)\<rparr>) (Some doc_context) = entry_context"
  by (simp add: format_image_path_def Let_def img_context_def doc_context_def entry_context_def
      pdf_mapping_def lower_def to_lower_def ascii_uppercase_def ascii_lowercase_def
      title_def is_ascii_lower_def is_ascii_upper_def to_upper_def)

lemma format_weak:
  "format_image_path (img_weak\<lparr>i_score := Some (23 / 100)\<rparr>) (Some doc_weak) = entry_weak"
  by (simp add: format_image_path_def Let_def img_weak_def doc_weak_def entry_weak_def
      pdf_mapping_def lower_def to_lower_def ascii_uppercase_def ascii_lowercase_def
      title_def is_ascii_lower_def is_ascii_upper_def to_upper_def)

lemma gallery_visual_pass:
  "visual_pass gallery [1, 0] [node_visual] ([], {}) = ([entry_strong], {''img/strong.png''})"
proof -
  have k: "image_key img_strong = Some ''img/strong.png''" "image_key img_weak = Some ''img/weak.png''"
    by (simp_all add: image_key_def img_strong_def img_weak_def)
  have e: "i_clip_embedding img_strong = Some [27 / 100, 0]" "i_clip_embedding img_weak = Some [1 / 5, 0]"
    by (simp_all add: img_strong_def img_weak_def)
  have c: "cos_sim gallery [1, 0] [x, 0] = x" for x by (simp add: gallery_def)
  have r: "d_related_images node_visual = Some [img_strong, img_weak]"
    by (simp add: node_visual_def)
  show ?thesis
    by (simp add: visual_pass_def r visual_image_def k e c Let_def format_strong)
qed

lemma gallery_context_candidates:
  "all_candidate_images gallery [1, 0] [node_visual] (Some [doc_context])
     = ([entry_strong, entry_context], {''img/context.png'', ''img/strong.png''})"
proof -
  have k: "image_key img_strong = Some ''img/strong.png''" "image_key img_context = Some ''img/context.png''"
    by (simp_all add: image_key_def img_strong_def img_context_def)
  have e: "i_clip_embedding img_context = Some [1 / 4, 0]"
    by (simp add: img_context_def)
  have c: "cos_sim gallery [1, 0] [x, 0] = x" for x by (simp add: gallery_def)
  have r: "d_related_images doc_context = Some [img_context, img_strong]"
    by (simp add: doc_context_def)
  show ?thesis
    by (simp add: all_candidate_images_def gallery_visual_pass text_pass_def r text_image_def k e c
        Let_def format_context)
qed

lemma gallery_weak_candidates:
  "all_candidate_images gallery [1, 0] [node_visual] (Some [doc_weak])
     = ([entry_strong, entry_weak], {''img/weak.png'', ''img/strong.png''})"
proof -
  have k: "image_key img_weak = Some ''img/weak.png''"
    by (simp add: image_key_def img_weak_def)
  have e: "i_clip_embedding img_weak = Some [1 / 5, 0]"
    by (simp add: img_weak_def)
  have c: "cos_sim gallery [1, 0] [x, 0] = x" for x by (simp add: gallery_def)
  have r: "d_related_images doc_weak = Some [img_weak]"
    by (simp add: doc_weak_def)
  show ?thesis
    by (simp add: all_candidate_images_def gallery_visual_pass text_pass_def r text_image_def k e c
        Let_def format_weak)
qed

lemma gallery_clip: "get_clip_text_embedding gallery t = [1, 0]"
  by (simp add: gallery_def)

lemma gallery_context_images:
  "retrieve_images gallery ''wrench'' None 12 (Some [doc_context]) init_handler
     = (Inr [entry_context, entry_strong], after_image_search ''wrench'' (Some [doc_context]))"
  by (simp add: retrieve_images_result [OF gallery_visual_search] gallery_clip
      gallery_context_candidates sort_desc_def entry_strong_def entry_context_def)

lemma gallery_weak_images:
  "retrieve_images gallery ''wrench'' None 12 (Some [doc_weak]) init_handler
     = (Inr [entry_strong, entry_weak], after_image_search ''wrench'' (Some [doc_weak]))"
  by (simp add: retrieve_images_result [OF gallery_visual_search] gallery_clip
      gallery_weak_candidates sort_desc_def entry_strong_def entry_weak_def)

lemma descending_index:
  assumes "sorted (map (\<lambda>e. - key e) out)" "i < length out" "j < length out"
    and "key (out ! j) < (key (out ! i) :: real)"
  shows "i < j"
proof (rule ccontr)
  assume "\<not> i < j"
  then have "j \<le> i" by simp
  from sorted_nth_mono [OF assms(1) this] assms(2,3) have "- key (out ! j) \<le> - key (out ! i)"
    by simp
  with assms(4) show False by simp
qed

text \<open>
  Claim C2, as the code has it. The claim as stated fails: the text-context pass tests the
  boosted score, so a candidate with similarity 0.20 is returned with score 0.23
 . What holds: when the visual search answers, the call
  returns a list in which every entry is either an image of a visual node whose similarity
  exceeds 0.22, scored with that similarity, or an image of a context document whose
  similarity times 1.15 exceeds 0.22, scored with the product; so every returned score
  exceeds 0.22; and the list is in descending score order, so an entry with the higher
  score (a boosted 0.2875) stands before an entry with the lower one (an unboosted 0.27).
\<close>

theorem image_final_score_threshold:
  assumes "strict_visual_search sv (get_clip_text_embedding sv query) category 20
             (record_event (ImgSearch query category lmt text_docs) s) = (Inr nodes, s')"
  shows "\<exists>out. retrieve_images sv query category lmt text_docs s = (Inr out, s')
           \<and> list_all (\<lambda>e. visual_entry sv (get_clip_text_embedding sv query) nodes e
                            \<or> text_entry sv (get_clip_text_embedding sv query) (docs_of text_docs) e) out
           \<and> list_all (\<lambda>e. 0.22 < o_score e) out
           \<and> sorted (map (\<lambda>e. - o_score e) out)
           \<and> (\<forall>i j. i < length out \<and> j < length out \<and> o_score (out ! j) < o_score (out ! i)
                  \<longrightarrow> i < j)"
proof -
  let ?q = "get_clip_text_embedding sv query"
  let ?all = "fst (all_candidate_images sv ?q nodes text_docs)"
  let ?out = "take lmt (sort_desc o_score ?all)"
  have r: "retrieve_images sv query category lmt text_docs s = (Inr ?out, s')"
    by (rule retrieve_images_result [OF assms])
  have sub: "set ?out \<subseteq> set ?all" by (rule ranked_subset)
  have prov: "\<forall>e \<in> set ?out. visual_entry sv ?q nodes e \<or> text_entry sv ?q (docs_of text_docs) e"
    using sub all_candidates_entries [of sv ?q nodes text_docs] by blast
  then have thr: "\<forall>e \<in> set ?out. 0.22 < o_score e"
    using visual_entry_score text_entry_score by blast
  have srt: "sorted (map (\<lambda>e. - o_score e) ?out)" by (rule sort_desc_sorted)
  have idx: "\<forall>i j. i < length ?out \<and> j < length ?out \<and> o_score (?out ! j) < o_score (?out ! i)
                  \<longrightarrow> i < j"
    using descending_index [OF srt] by blast
  show ?thesis
    using r prov thr srt idx unfolding list_all_iff by blast
qed

theorem image_final_score_threshold_witness:
  "strict_visual_search gallery (get_clip_text_embedding gallery ''wrench'') None 20
     (record_event (ImgSearch ''wrench'' None 12 (Some [doc_context])) init_handler)
     = (Inr [node_visual], after_image_search ''wrench'' (Some [doc_context]))
   \<and> retrieve_images gallery ''wrench'' None 12 (Some [doc_context]) init_handler
       = (Inr [entry_context, entry_strong], after_image_search ''wrench'' (Some [doc_context]))
   \<and> o_score entry_context = 0.2875 \<and> o_score entry_strong = 0.27
   \<and> list_all (\<lambda>e. 0.22 < o_score e) [entry_context, entry_strong]
   \<and> sorted (map (\<lambda>e. - o_score e) [entry_context, entry_strong])"
proof -
  note h = gallery_visual_search [of "Some [doc_context]"]
  from image_final_score_threshold [OF h] obtain out where
    out: "retrieve_images gallery ''wrench'' None 12 (Some [doc_context]) init_handler
            = (Inr out, after_image_search ''wrench'' (Some [doc_context]))"
    and p: "list_all (\<lambda>e. 0.22 < o_score e) out" "sorted (map (\<lambda>e. - o_score e) out)"
    by blast
  from out have "out = [entry_context, entry_strong]"
    by (simp add: gallery_context_images)
  with p h show ?thesis
    by (simp add: gallery_context_images entry_context_def entry_strong_def)
qed

theorem image_threshold_counterexample:
  "cos_sim gallery (get_clip_text_embedding gallery ''wrench'') [0.20, 0] = 0.20
   \<and> i_clip_embedding img_weak = Some [0.20, 0]
   \<and> d_related_images doc_weak = Some [img_weak]
   \<and> fst (retrieve_images gallery ''wrench'' None 12 (Some [doc_weak]) init_handler)
       = Inr [entry_strong, entry_weak]
   \<and> o_image_path entry_weak = ''img/weak.png''
   \<and> o_score entry_weak = 0.23"
proof -
  have "cos_sim gallery (get_clip_text_embedding gallery ''wrench'') [0.20, 0] = 0.20"
    by (simp add: gallery_def)
  moreover have "i_clip_embedding img_weak = Some [0.20, 0]"
    by (simp add: img_weak_def)
  moreover have "d_related_images doc_weak = Some [img_weak]"
    by (simp add: doc_weak_def)
  moreover have "fst (retrieve_images gallery ''wrench'' None 12 (Some [doc_weak]) init_handler)
       = Inr [entry_strong, entry_weak]"
    by (simp add: gallery_weak_images)
  moreover have "o_image_path entry_weak = ''img/weak.png'' \<and> o_score entry_weak = 0.23"
    by (simp add: entry_weak_def)
  ultimately show ?thesis by blast
qed

text \<open>
  Claim C10, as the code has it. No two returned entries share an image path. The second
  half of the claim fails as stated: a path is marked as seen only when its candidate is
  accepted, so a path the visual-direct pass met and rejected (similarity 0.20) is taken
  from the text-context pass, with the boost. What holds:
  an entry whose path the visual-direct pass accepted is that candidate of the
  visual-direct pass, scored with the plain similarity, whatever the text-context pass
  found under the same path.
\<close>

theorem image_paths_unique:
  assumes "strict_visual_search sv (get_clip_text_embedding sv query) category 20
             (record_event (ImgSearch query category lmt text_docs) s) = (Inr nodes, s')"
  shows "\<exists>out. retrieve_images sv query category lmt text_docs s = (Inr out, s')
           \<and> distinct (map o_image_path out)
           \<and> (\<forall>e \<in> set out.
                 o_image_path e \<in> snd (visual_pass sv (get_clip_text_embedding sv query) nodes ([], {}))
                 \<longrightarrow> e \<in> set (fst (visual_pass sv (get_clip_text_embedding sv query) nodes ([], {})))
                      \<and> visual_entry sv (get_clip_text_embedding sv query) nodes e)"
proof -
  let ?q = "get_clip_text_embedding sv query"
  let ?V = "visual_pass sv ?q nodes ([], {})"
  let ?all = "fst (all_candidate_images sv ?q nodes text_docs)"
  let ?out = "take lmt (sort_desc o_score ?all)"
  have r: "retrieve_images sv query category lmt text_docs s = (Inr ?out, s')"
    by (rule retrieve_images_result [OF assms])
  have d: "distinct (map o_image_path ?all)" by (rule all_candidates_distinct)
  then have d_out: "distinct (map o_image_path ?out)" by (rule ranked_distinct)
  have sub: "set ?out \<subseteq> set ?all" by (rule ranked_subset)
  obtain new where new: "?all = fst ?V @ new"
    using all_candidates_split [of sv ?q nodes text_docs] by blast
  have seen: "set (map o_image_path (fst ?V)) = snd ?V"
    using visual_pass_paths [of "([], {})" sv ?q nodes] by simp
  have keep: "e \<in> set (fst ?V) \<and> visual_entry sv ?q nodes e"
    if e: "e \<in> set ?out" and p: "o_image_path e \<in> snd ?V" for e
  proof -
    from e sub have "e \<in> set (fst ?V) \<or> e \<in> set new" using new by auto
    moreover have "e \<notin> set new"
    proof
      assume "e \<in> set new"
      then have "o_image_path e \<in> set (map o_image_path new)" by simp
      moreover from d new have "set (map o_image_path (fst ?V)) \<inter> set (map o_image_path new) = {}"
        by simp
      ultimately show False using p seen by blast
    qed
    ultimately have "e \<in> set (fst ?V)" by blast
    then show ?thesis using visual_pass_entries [of sv ?q nodes] by blast
  qed
  show ?thesis using r d_out keep by blast
qed

theorem image_paths_unique_witness:
  "strict_visual_search gallery (get_clip_text_embedding gallery ''wrench'') None 20
     (record_event (ImgSearch ''wrench'' None 12 (Some [doc_context])) init_handler)
     = (Inr [node_visual], after_image_search ''wrench'' (Some [doc_context]))
   \<and> fst (retrieve_images gallery ''wrench'' None 12 (Some [doc_context]) init_handler)
       = Inr [entry_context, entry_strong]
   \<and> distinct (map o_image_path [entry_context, entry_strong])
   \<and> o_image_path entry_strong
       \<in> snd (visual_pass gallery (get_clip_text_embedding gallery ''wrench'') [node_visual] ([], {}))
   \<and> entry_strong
       \<in> set (fst (visual_pass gallery (get_clip_text_embedding gallery ''wrench'') [node_visual] ([], {})))
   \<and> o_score entry_strong = 0.27"
proof -
  note h = gallery_visual_search [of "Some [doc_context]"]
  from image_paths_unique [OF h] obtain out where
    out: "retrieve_images gallery ''wrench'' None 12 (Some [doc_context]) init_handler
            = (Inr out, after_image_search ''wrench'' (Some [doc_context]))"
    and p: "distinct (map o_image_path out)"
      "\<forall>e \<in> set out.
         o_image_path e \<in> snd (visual_pass gallery (get_clip_text_embedding gallery ''wrench'') [node_visual] ([], {}))
         \<longrightarrow> e \<in> set (fst (visual_pass gallery (get_clip_text_embedding gallery ''wrench'') [node_visual] ([], {})))"
    by blast
  from out have o: "out = [entry_context, entry_strong]"
    by (simp add: gallery_context_images)
  have m: "o_image_path entry_strong
       \<in> snd (visual_pass gallery (get_clip_text_embedding gallery ''wrench'') [node_visual] ([], {}))"
    by (simp add: gallery_clip gallery_visual_pass entry_strong_def)
  from p(2) o m have "entry_strong
       \<in> set (fst (visual_pass gallery (get_clip_text_embedding gallery ''wrench'') [node_visual] ([], {})))"
    by simp
  with p(1) o m h show ?thesis
    by (simp add: gallery_context_images entry_strong_def)
qed

theorem image_paths_counterexample:
  "strict_visual_search gallery (get_clip_text_embedding gallery ''wrench'') None 20
     (record_event (ImgSearch ''wrench'' None 12 (Some [doc_weak])) init_handler)
     = (Inr [node_visual], after_image_search ''wrench'' (Some [doc_weak]))
   \<and> d_related_images node_visual = Some [img_strong, img_weak]
   \<and> d_related_images doc_weak = Some [img_weak]
   \<and> image_key img_weak = Some ''img/weak.png''
   \<and> fst (retrieve_images gallery ''wrench'' None 12 (Some [doc_weak]) init_handler)
       = Inr [entry_strong, entry_weak]
   \<and> entry_weak = format_image_path (img_weak\<lparr>i_score := Some (0.20 * 1.15)\<rparr>) (Some doc_weak)
   \<and> entry_weak
       \<notin> set (fst (visual_pass gallery (get_clip_text_embedding gallery ''wrench'') [node_visual] ([], {})))"
proof -
  have "d_related_images node_visual = Some [img_strong, img_weak]
      \<and> d_related_images doc_weak = Some [img_weak]
      \<and> image_key img_weak = Some ''img/weak.png''"
    by (simp add: node_visual_def doc_weak_def image_key_def img_weak_def)
  moreover have "fst (retrieve_images gallery ''wrench'' None 12 (Some [doc_weak]) init_handler)
       = Inr [entry_strong, entry_weak]"
    by (simp add: gallery_weak_images)
  moreover have "entry_weak = format_image_path (img_weak\<lparr>i_score := Some (0.20 * 1.15)\<rparr>) (Some doc_weak)"
    using format_weak by simp
  moreover have "entry_weak
       \<notin> set (fst (visual_pass gallery (get_clip_text_embedding gallery ''wrench'') [node_visual] ([], {})))"
    by (simp add: gallery_clip gallery_visual_pass entry_weak_def entry_strong_def)
  ultimately show ?thesis using gallery_visual_search [of "Some [doc_weak]"] by blast
qed

section \<open>Properties of the pipelines\<close>

lemma new_events_trans:
  assumes "trace s1 = trace s @ e1" "trace s2 = trace s1 @ e2"
  shows "trace s2 = trace s @ (e1 @ e2)"
  using assms by simp

lemma manual_fallback_trace:
  "manual_fallback sv c p fd s = (res, s') \<Longrightarrow>
     trace s' = trace s @ [Aggregate c (widened p)]"
  using manual_fallback_state [of sv c p fd s] by (simp add: record_event_def)

lemma ers_aggregates:
  assumes "execute_resilient_search sv c p f s = (res, s')"
  shows "\<exists>aggs. trace s' = trace s @ aggs \<and> list_all is_aggregate aggs"
proof (cases "known_broken s f")
  case True
  then show ?thesis
    using assms manual_fallback_trace [of sv c p "dict_items f" s res s']
    by (simp add: ers_known)
next
  case False
  define full where "full = (if truthy_dict f then p\<lparr>sp_filter := f\<rparr> else p)"
  show ?thesis
  proof (cases "aggregate sv (trace s) c full")
    case (Inr docs)
    then have "trace s' = trace s @ [Aggregate c full]"
      using False assms
      by (auto simp: execute_resilient_search_def full_def run_aggregate_def record_event_def)
    then show ?thesis by simp
  next
    case (Inl e)
    show ?thesis
    proof (cases "\<exists>m. e = OperationFailure m \<and> contains_str ''indexed as filter'' m \<and> truthy_dict f")
      case True
      then obtain m where m: "e = OperationFailure m" "contains_str ''indexed as filter'' m" "truthy_dict f"
        by blast
      have "snd (execute_resilient_search sv c p f s)
              = snd (manual_fallback sv c p (dict_items f)
                       (learn_broken (dict_items f) (record_event (Aggregate c full) s)))"
        using False Inl m
        by (simp add: execute_resilient_search_def full_def run_aggregate_def)
      then have "trace s' = trace s @ [Aggregate c full, Aggregate c (widened p)]"
        using assms by (simp add: manual_fallback_state record_event_def)
      then show ?thesis by simp
    next
      case False2: False
      have "trace s' = trace s @ [Aggregate c full]"
        using False Inl False2 assms
        by (cases e) (auto simp: execute_resilient_search_def full_def run_aggregate_def record_event_def)
      then show ?thesis by simp
    qed
  qed
qed

lemma ers_answers:
  assumes "backend_answers sv"
  shows "\<exists>ds s'. execute_resilient_search sv c p f s = (Inr ds, s')"
proof -
  have a: "\<exists>ds. aggregate sv h c q = Inr ds" for h q
    using assms by (simp add: backend_answers_def)
  have mf: "\<exists>ds s'. manual_fallback sv c p fd t = (Inr ds, s')" for fd t
    using a [of "trace t" "p\<lparr>sp_limit := 100, sp_numCandidates := 250, sp_filter := None\<rparr>"]
    by (auto simp: manual_fallback_def bindE_def run_aggregate_def returnE_def)
  show ?thesis
  proof (cases "known_broken s f")
    case True
    then show ?thesis using mf by (simp add: ers_known)
  next
    case False
    obtain ds where "aggregate sv (trace s) c (if truthy_dict f then p\<lparr>sp_filter := f\<rparr> else p) = Inr ds"
      using a by blast
    then show ?thesis using False
      by (simp add: execute_resilient_search_def run_aggregate_def)
  qed
qed

lemma retrieve_context_trace:
  assumes "retrieve_context sv q k cat s = (res, s')"
  shows "\<exists>aggs. trace s' = trace s @ CtxSearch q k cat # aggs \<and> list_all is_aggregate aggs"
  using assms ers_aggregates [of sv Unified_nodes _ "category_filter cat"
      "record_event (CtxSearch q k cat) s" res s']
  by (auto simp: retrieve_context_def unified_search_def Let_def record_event_def)

lemma retrieve_context_answers:
  "backend_answers sv \<Longrightarrow> \<exists>ds s'. retrieve_context sv q k cat s = (Inr ds, s')"
  by (simp add: retrieve_context_def unified_search_def Let_def ers_answers)

lemma retrieve_images_trace:
  assumes "retrieve_images sv q cat lmt docs s = (res, s')"
  shows "\<exists>aggs. trace s' = trace s @ ImgSearch q cat lmt docs # aggs \<and> list_all is_aggregate aggs"
proof -
  let ?s0 = "record_event (ImgSearch q cat lmt docs) s"
  obtain r1 s1 where r1: "strict_visual_search sv (get_clip_text_embedding sv q) cat 20 ?s0 = (r1, s1)"
    by (cases "strict_visual_search sv (get_clip_text_embedding sv q) cat 20 ?s0") blast
  then have "s' = s1"
    using assms by (cases r1) (simp_all add: retrieve_images_def Let_def bindE_def returnE_def)
  moreover obtain aggs where "trace s1 = trace ?s0 @ aggs" "list_all is_aggregate aggs"
    using r1 ers_aggregates unfolding strict_visual_search_def by blast
  ultimately show ?thesis by (simp add: record_event_def)
qed

lemma retrieve_images_answers:
  "backend_answers sv \<Longrightarrow> \<exists>imgs s'. retrieve_images sv q cat lmt docs s = (Inr imgs, s')"
proof -
  assume b: "backend_answers sv"
  from ers_answers [OF b] obtain ds s' where
    "strict_visual_search sv (get_clip_text_embedding sv q) cat 20
       (record_event (ImgSearch q cat lmt docs) s) = (Inr ds, s')"
    unfolding strict_visual_search_def by blast
  from retrieve_images_result [OF this] show ?thesis by blast
qed

lemma llm_call_trace: "llm_call sv u p s = (res, s') \<Longrightarrow> trace s' = trace s @ [LLMCall u p]"
  by (auto simp: llm_call_def record_event_def)

lemma score_relevance_trace:
  "score_relevance sv q ctx s = (v, s') \<Longrightarrow>
     trace s' = trace s @ (if strip ctx = [] then [] else [LLMCall Score (score_relevance_prompt q ctx)])"
  by (auto simp: score_relevance_def llm_call_def record_event_def split: if_splits sum.splits list.splits)

lemma rewrite_query_trace:
  "rewrite_query sv q s = (v, s') \<Longrightarrow> trace s' = trace s @ [LLMCall Rewrite (rewrite_query_prompt q)]"
  by (auto simp: rewrite_query_def llm_call_def record_event_def split: sum.splits)

lemma generate_answer_trace:
  "generate_answer sv q ctx s = (v, s') \<Longrightarrow> trace s' = trace s @ [ChainCall ctx q]"
  by (auto simp: generate_answer_def record_event_def split: sum.splits)

lemma generate_queries_trace:
  "generate_queries sv q s = (v, s') \<Longrightarrow>
     trace s' = trace s @ [LLMCall Paraphrase (generate_queries_prompt q)]"
  by (auto simp: generate_queries_def llm_call_def record_event_def Let_def split: sum.splits)

lemma engine_calls_append:
  assumes "trace s' = trace s @ evs"
  shows "engine_calls s s' = filter (\<lambda>e. \<not> is_aggregate e) evs"
  using assms by (simp add: engine_calls_def new_events_def)

lemma filter_aggregates [simp]:
  "list_all is_aggregate aggs \<Longrightarrow> filter (\<lambda>e. \<not> is_aggregate e) aggs = []"
  by (induction aggs) auto

lemma generate_answer_total: "\<exists>a s'. generate_answer sv q ctx s = (a, s')"
  by (cases "generate_answer sv q ctx s") blast

lemma bindE_Inr: "m s = (Inr x, s1) \<Longrightarrow> bindE m f s = f x s1"
  by (simp add: bindE_def)

lemma bindE_Inl: "m s = (Inl e, s1) \<Longrightarrow> bindE m f s = (Inl e, s1)"
  by (simp add: bindE_def)

lemma bindE_InrD:
  assumes "bindE m f s = (Inr y, s')"
  shows "\<exists>x s1. m s = (Inr x, s1) \<and> f x s1 = (Inr y, s')"
proof (cases "m s")
  case (Pair r s1)
  then show ?thesis using assms by (cases r) (simp_all add: bindE_def)
qed

lemma liftE_eq: "m s = (x, s1) \<Longrightarrow> liftE m s = (Inr x, s1)"
  by (simp add: liftE_def)

lemma bindE_liftE: "bindE (liftE m) f s = f (fst (m s)) (snd (m s))"
  by (simp add: bindE_def liftE_def split: prod.splits)

lemma bindE_returnE [simp]: "bindE (returnE x) f s = f x s"
  by (simp add: bindE_def returnE_def)

lemma bindE_answers:
  assumes "\<And>s. \<exists>x s1. m s = (Inr x, s1)" "\<And>x s. \<exists>y s2. f x s = (Inr y, s2)"
  shows "\<exists>y s2. bindE m f s = (Inr y, s2)"
proof -
  obtain x s1 where "m s = (Inr x, s1)" using assms(1) by blast
  then show ?thesis using assms(2) [of x s1] by (simp add: bindE_Inr)
qed

lemma standard_answers:
  assumes "backend_answers sv"
  shows "\<exists>r s'. standard_rag_pipeline sv q init s = (Inr r, s')"
  unfolding standard_rag_pipeline_def Let_def bindE_liftE
  apply (rule bindE_answers)
   apply (simp add: returnE_def retrieve_context_answers [OF assms])
  apply (rule bindE_answers)
   apply (rule retrieve_images_answers [OF assms])
  apply (simp add: returnE_def)
  done

lemma liftE_answers: "\<exists>x s1. liftE m s = (Inr x, s1)"
  by (simp add: liftE_def split: prod.splits)

lemma corrective_answers:
  assumes "backend_answers sv"
  shows "\<exists>r s'. corrective_rag_pipeline sv q init s = (Inr r, s')"
proof -
  let ?cat = "detect_category q"
  have first: "\<exists>docs0 s1. (if truthy_docs init then returnE (docs_of init)
                             else retrieve_context sv q 8 ?cat) s0 = (Inr docs0, s1)" for s0
    using retrieve_context_answers [OF assms, of q 8 ?cat s0] by (simp add: returnE_def)
  have mid: "\<exists>p s1. (if sc < 0.7
                 then bindE (liftE (rewrite_query sv q))
                        (\<lambda>rewritten_q.
                           bindE (retrieve_context sv rewritten_q 15 None)
                             (\<lambda>secondary. returnE (deduplicate_docs (docs0 @ secondary), rewritten_q)))
                 else returnE (docs0, q)) s0 = (Inr p, s1)" for sc :: real and docs0 s0
  proof (cases "sc < 0.7")
    case True
    have "\<exists>p s1. bindE (liftE (rewrite_query sv q))
                        (\<lambda>rewritten_q.
                           bindE (retrieve_context sv rewritten_q 15 None)
                             (\<lambda>secondary. returnE (deduplicate_docs (docs0 @ secondary), rewritten_q)))
                    s0 = (Inr p, s1)"
      by (rule bindE_answers, rule liftE_answers, rule bindE_answers,
          rule retrieve_context_answers [OF assms], simp add: returnE_def)
    then show ?thesis using True by simp
  next
    case False
    then show ?thesis by (simp add: returnE_def)
  qed
  have tail: "\<exists>r s'. (case p of (context_docs, v_query) \<Rightarrow>
                 bindE (retrieve_images sv v_query ?cat 12 (Some context_docs))
                   (\<lambda>images.
                      bindE (liftE (generate_answer sv q (context_of (take 12 context_docs))))
                        (\<lambda>answer.
                           returnE \<lparr>r_answer = answer, r_images = images,
                                    r_relevance_score = Some sc, r_entities = None,
                                    r_queries = None, r_mode = None\<rparr>))) s0 = (Inr r, s')"
    for p :: "doc list \<times> string" and sc s0
  proof (cases p)
    case (Pair docs vq)
    show ?thesis
      unfolding Pair prod.case
      by (rule bindE_answers, rule retrieve_images_answers [OF assms], rule bindE_answers,
          rule liftE_answers, simp add: returnE_def)
  qed
  show ?thesis
    unfolding corrective_rag_pipeline_def Let_def
    by (rule bindE_answers, rule first, rule bindE_answers, rule liftE_answers,
        rule bindE_answers, rule mid, rule tail)
qed

lemma enrich_answers:
  assumes "backend_answers sv"
  shows "\<exists>ds s'. enrich sv es acc s = (Inr ds, s')"
proof (induction es arbitrary: acc s)
  case Nil
  show ?case by (simp add: returnE_def)
next
  case (Cons e es)
  show ?case
    unfolding enrich.simps
    by (rule bindE_answers) (rule retrieve_context_answers [OF assms], rule Cons)
qed

lemma multi_search_answers:
  assumes "backend_answers sv"
  shows "\<exists>rs s'. multi_search sv cat qs acc s = (Inr rs, s')"
proof (induction qs arbitrary: acc s)
  case Nil
  show ?case by (simp add: returnE_def)
next
  case (Cons q qs)
  show ?case
    unfolding multi_search.simps
    by (rule bindE_answers) (rule retrieve_context_answers [OF assms], rule Cons)
qed

lemma speculative_answers:
  assumes "backend_answers sv"
  shows "\<exists>r s'. speculative_rag_pipeline sv q init s = (Inr r, s')"
  unfolding speculative_rag_pipeline_def Let_def bindE_liftE
  apply (rule bindE_answers)
   apply (simp add: returnE_def retrieve_context_answers [OF assms])
  apply (rule bindE_answers)
   apply (rule enrich_answers [OF assms])
  apply (rule bindE_answers)
   apply (rule retrieve_images_answers [OF assms])
  apply (simp add: returnE_def)
  done

lemma fusion_answers:
  assumes "backend_answers sv"
  shows "\<exists>r s'. fusion_rag_pipeline sv q init s = (Inr r, s')"
  unfolding fusion_rag_pipeline_def Let_def bindE_liftE
  apply (rule bindE_answers)
   apply (rule multi_search_answers [OF assms])
  apply (rule bindE_answers)
   apply (rule retrieve_images_answers [OF assms])
  apply (simp add: returnE_def)
  done

lemma with_mode_answers:
  assumes "\<exists>r s'. p s = (Inr r, s')"
  shows "\<exists>r s'. with_mode m p s = (Inr r, s') \<and> r_mode r = Some m"
  using assms by (auto simp: with_mode_def bindE_def returnE_def)

lemma with_mode_mode: "with_mode m p s = (Inr r, s') \<Longrightarrow> r_mode r = Some m"
  by (auto simp: with_mode_def bindE_def returnE_def split: prod.splits sum.splits)

lemma dispatch_answers:
  assumes "backend_answers sv"
  shows "\<exists>r s'. dispatch sv q init m s = (Inr r, s')"
proof -
  have "\<exists>r s'. with_mode m' (standard_rag_pipeline sv q init) s = (Inr r, s')" for m'
    using with_mode_answers [where p = "standard_rag_pipeline sv q init", OF standard_answers [OF assms]]
    by blast
  moreover have "\<exists>r s'. with_mode m' (corrective_rag_pipeline sv q init) s = (Inr r, s')" for m'
    using with_mode_answers [where p = "corrective_rag_pipeline sv q init", OF corrective_answers [OF assms]]
    by blast
  moreover have "\<exists>r s'. with_mode m' (speculative_rag_pipeline sv q init) s = (Inr r, s')" for m'
    using with_mode_answers [where p = "speculative_rag_pipeline sv q init", OF speculative_answers [OF assms]]
    by blast
  moreover have "\<exists>r s'. with_mode m' (fusion_rag_pipeline sv q init) s = (Inr r, s')" for m'
    using with_mode_answers [where p = "fusion_rag_pipeline sv q init", OF fusion_answers [OF assms]]
    by blast
  ultimately show ?thesis by (simp add: dispatch_def)
qed

lemma ask_answers:
  assumes "backend_answers sv"
  shows "\<exists>r s'. ask sv q m s = (Inr r, s')"
proof (cases "m = ''auto''")
  case True
  obtain ds s1 where "retrieve_context sv q 5 None s = (Inr ds, s1)"
    using retrieve_context_answers [OF assms] by blast
  then show ?thesis
    using True dispatch_answers [OF assms]
    by (simp add: ask_def route_def bindE_Inr Let_def returnE_def)
next
  case False
  then show ?thesis using dispatch_answers [OF assms]
    by (simp add: ask_def route_def)
qed

text \<open>
  Claim C7. When the generator call fails, query rewriting returns the original query,
  relevance scoring returns 0.5 (also when the generator answers without a parseable
  score), entity extraction returns the empty list and paraphrase generation returns the
  list holding only the original query; and whatever the generator does, \<open>ask\<close> returns a
  result and raises nothing whenever the search backend answers.
\<close>

theorem generator_failures_degrade:
  "(llm_invoke sv (trace s) (rewrite_query_prompt q) = Inl e
      \<longrightarrow> fst (rewrite_query sv q s) = q)
   \<and> (strip ctx \<noteq> [] \<and> llm_invoke sv (trace s) (score_relevance_prompt q ctx) = Inl e
      \<longrightarrow> fst (score_relevance sv q ctx s) = 0.5)
   \<and> (strip ctx \<noteq> [] \<and> llm_invoke sv (trace s) (score_relevance_prompt q ctx) = Inr content
        \<and> findall_scores (strip content) = []
      \<longrightarrow> fst (score_relevance sv q ctx s) = 0.5)
   \<and> (llm_invoke sv (trace s) (extract_entities_prompt t) = Inl e
      \<longrightarrow> fst (extract_entities sv t s) = [])
   \<and> (llm_invoke sv (trace s) (generate_queries_prompt q) = Inl e
      \<longrightarrow> fst (generate_queries sv q s) = [q])
   \<and> (backend_answers sv \<longrightarrow> (\<exists>r s'. ask sv q mode s = (Inr r, s')))"
proof (intro conjI impI)
  show "fst (rewrite_query sv q s) = q"
    if "llm_invoke sv (trace s) (rewrite_query_prompt q) = Inl e"
    using that by (simp add: rewrite_query_def llm_call_def)
  show "fst (score_relevance sv q ctx s) = 0.5"
    if "strip ctx \<noteq> [] \<and> llm_invoke sv (trace s) (score_relevance_prompt q ctx) = Inl e"
    using that by (simp add: score_relevance_def llm_call_def)
  show "fst (score_relevance sv q ctx s) = 0.5"
    if "strip ctx \<noteq> [] \<and> llm_invoke sv (trace s) (score_relevance_prompt q ctx) = Inr content
        \<and> findall_scores (strip content) = []"
    using that by (simp add: score_relevance_def llm_call_def)
  show "fst (extract_entities sv t s) = []"
    if "llm_invoke sv (trace s) (extract_entities_prompt t) = Inl e"
    using that by (simp add: extract_entities_def llm_call_def)
  show "fst (generate_queries sv q s) = [q]"
    if "llm_invoke sv (trace s) (generate_queries_prompt q) = Inl e"
    using that by (simp add: generate_queries_def llm_call_def)
  show "\<exists>r s'. ask sv q mode s = (Inr r, s')" if "backend_answers sv"
    using that by (rule ask_answers)
qed

lemma shelf_answers: "backend_answers (shelf ds)"
  by (simp add: backend_answers_def shelf_def)

lemma vague_answers: "backend_answers vague_generator"
  by (simp add: backend_answers_def vague_generator_def shelf_def)

lemma vague_no_score: "findall_scores (strip ''  hard to say  '') = []"
  by (simp add: strip_def py_isspace_def match_score_at_def)

theorem generator_failures_degrade_witness:
  "llm_invoke (shelf [doc_a]) (trace init_handler) (rewrite_query_prompt short_query)
     = Inl (OtherError ''generator down'')
   \<and> fst (rewrite_query (shelf [doc_a]) short_query init_handler) = short_query
   \<and> strip ''torque wrench'' \<noteq> []
   \<and> fst (score_relevance (shelf [doc_a]) short_query ''torque wrench'' init_handler) = 0.5
   \<and> llm_invoke vague_generator (trace init_handler)
        (score_relevance_prompt short_query ''torque wrench'') = Inr ''  hard to say  ''
   \<and> findall_scores (strip ''  hard to say  '') = []
   \<and> fst (score_relevance vague_generator short_query ''torque wrench'' init_handler) = 0.5
   \<and> fst (extract_entities (shelf [doc_a]) short_query init_handler) = []
   \<and> fst (generate_queries (shelf [doc_a]) short_query init_handler) = [short_query]
   \<and> backend_answers (shelf [doc_a])
   \<and> (\<exists>r s'. ask (shelf [doc_a]) short_query ''corrective'' init_handler = (Inr r, s'))"
proof -
  have down: "llm_invoke (shelf [doc_a]) h p = Inl (OtherError ''generator down'')" for h p
    by (simp add: shelf_def)
  have ctx: "strip ''torque wrench'' \<noteq> []"
    by (simp add: strip_def py_isspace_def)
  have vague: "llm_invoke vague_generator (trace init_handler)
        (score_relevance_prompt short_query ''torque wrench'') = Inr ''  hard to say  ''"
    by (simp add: vague_generator_def)
  note a = generator_failures_degrade [where sv = "shelf [doc_a]" and s = init_handler
      and q = short_query and ctx = "''torque wrench''" and t = short_query
      and e = "OtherError ''generator down''" and mode = "''corrective''"]
  note b = generator_failures_degrade [where sv = vague_generator and s = init_handler
      and q = short_query and ctx = "''torque wrench''" and content = "''  hard to say  ''"]
  show ?thesis
    using down ctx vague vague_no_score shelf_answers [of "[doc_a]"] a b by blast
qed

text \<open>
  Claim C8. In auto mode, once the width-5 probe on the original query (no category filter)
  has answered, \<open>ask\<close> is: the Speculative pipeline if the query has at most three words,
  else the Fusion pipeline if the probe returned fewer than three candidates, else the
  Standard pipeline; the chosen pipeline receives the probe's results as its initial
  candidate list and continues from the state the probe left, and a result carries the
  name of the chosen strategy as its mode.
\<close>

theorem router_decision_table:
  assumes "retrieve_context sv question 5 None s = (Inr probe, s1)"
  shows "ask sv question ''auto'' s =
           (if length (split_ws question) \<le> 3
            then with_mode ''speculative'' (speculative_rag_pipeline sv question (Some probe)) s1
            else if length probe < 3
            then with_mode ''fusion'' (fusion_rag_pipeline sv question (Some probe)) s1
            else with_mode ''standard'' (standard_rag_pipeline sv question (Some probe)) s1)
         \<and> (\<forall>r s'. ask sv question ''auto'' s = (Inr r, s') \<longrightarrow>
               r_mode r = Some (if length (split_ws question) \<le> 3 then ''speculative''
                                else if length probe < 3 then ''fusion'' else ''standard''))"
proof -
  have eq: "ask sv question ''auto'' s =
           (if length (split_ws question) \<le> 3
            then with_mode ''speculative'' (speculative_rag_pipeline sv question (Some probe)) s1
            else if length probe < 3
            then with_mode ''fusion'' (fusion_rag_pipeline sv question (Some probe)) s1
            else with_mode ''standard'' (standard_rag_pipeline sv question (Some probe)) s1)"
    using assms
    by (simp add: ask_def route_def bindE_def returnE_def Let_def dispatch_def)
  have "r_mode r = Some (if length (split_ws question) \<le> 3 then ''speculative''
                                else if length probe < 3 then ''fusion'' else ''standard'')"
    if "ask sv question ''auto'' s = (Inr r, s')" for r s'
    using that unfolding eq by (auto split: if_splits dest: with_mode_mode)
  then show ?thesis using eq by blast
qed

lemma shelf_probe:
  "retrieve_context (shelf ds) question 5 None init_handler = (Inr ds, after_probe question)"
  by (simp add: retrieve_context_def unified_search_def execute_resilient_search_def
      known_broken_def run_aggregate_def record_event_def init_handler_def shelf_def
      after_probe_def)

lemma query_lengths:
  "length (split_ws short_query) = 2" "length (split_ws long_query) = 6"
  by (simp_all add: short_query_def long_query_def py_isspace_def)

theorem router_decision_table_witness:
  "retrieve_context (shelf [doc_a, doc_b]) short_query 5 None init_handler
     = (Inr [doc_a, doc_b], after_probe short_query)
   \<and> length (split_ws short_query) = 2
   \<and> ask (shelf [doc_a, doc_b]) short_query ''auto'' init_handler
       = with_mode ''speculative''
           (speculative_rag_pipeline (shelf [doc_a, doc_b]) short_query (Some [doc_a, doc_b]))
           (after_probe short_query)
   \<and> retrieve_context (shelf [doc_a, doc_b]) long_query 5 None init_handler
       = (Inr [doc_a, doc_b], after_probe long_query)
   \<and> length (split_ws long_query) = 6
   \<and> ask (shelf [doc_a, doc_b]) long_query ''auto'' init_handler
       = with_mode ''fusion''
           (fusion_rag_pipeline (shelf [doc_a, doc_b]) long_query (Some [doc_a, doc_b]))
           (after_probe long_query)
   \<and> retrieve_context (shelf five_docs) long_query 5 None init_handler
       = (Inr five_docs, after_probe long_query)
   \<and> length five_docs = 5
   \<and> ask (shelf five_docs) long_query ''auto'' init_handler
       = with_mode ''standard''
           (standard_rag_pipeline (shelf five_docs) long_query (Some five_docs))
           (after_probe long_query)
   \<and> (\<exists>r s'. ask (shelf five_docs) long_query ''auto'' init_handler = (Inr r, s')
               \<and> r_mode r = Some ''standard'')"
proof -
  note a = router_decision_table [OF shelf_probe [of "[doc_a, doc_b]" short_query]]
  note b = router_decision_table [OF shelf_probe [of "[doc_a, doc_b]" long_query]]
  note c = router_decision_table [OF shelf_probe [of five_docs long_query]]
  have five: "length five_docs = 5" by (simp add: five_docs_def)
  obtain r s' where r: "ask (shelf five_docs) long_query ''auto'' init_handler = (Inr r, s')"
    using ask_answers [OF shelf_answers] by blast
  with c have "r_mode r = Some ''standard''"
    by (simp add: query_lengths five)
  with r have ex: "\<exists>r s'. ask (shelf five_docs) long_query ''auto'' init_handler = (Inr r, s')
               \<and> r_mode r = Some ''standard''"
    by blast
  show ?thesis
    using a b c ex five shelf_probe query_lengths by simp
qed

lemma paraphraser_queries:
  "generate_queries paraphraser grinder_query s
     = ([''rotary tool'', ''grinder'', ''cutting disc'', grinder_query],
        record_event (LLMCall Paraphrase (generate_queries_prompt grinder_query)) s)"
  by (simp add: generate_queries_def llm_call_def paraphraser_def shelf_def Let_def
      strip_def py_isspace_def nl_def)

lemma grinder_category: "detect_category grinder_query = None"
  by (simp add: detect_category_def grinder_query_def category_keywords_def lower_def
      to_lower_def ascii_uppercase_def ascii_lowercase_def)

lemma paraphraser_context:
  "retrieve_context paraphraser q k None s
     = (Inr [], record_event
                  (Aggregate Unified_nodes
                     \<lparr>sp_index = ''vector_index'', sp_path = ''embedding'', sp_queryVector = [1, 0],
                      sp_numCandidates = 100, sp_limit = k, sp_filter = None\<rparr>)
                  (record_event (CtxSearch q k None) s))"
  by (simp add: retrieve_context_def unified_search_def execute_resilient_search_def
      known_broken_def run_aggregate_def paraphraser_def shelf_def)

lemma paraphraser_images:
  "retrieve_images paraphraser q None 12 (Some []) s
     = (Inr [], record_event
                  (Aggregate Unified_nodes
                     \<lparr>sp_index = ''unified_clip_index'', sp_path = ''related_images.clip_embedding'',
                      sp_queryVector = [1, 0], sp_numCandidates = 100, sp_limit = 20,
                      sp_filter = None\<rparr>)
                  (record_event (ImgSearch q None 12 (Some [])) s))"
  by (simp add: retrieve_images_def strict_visual_search_def execute_resilient_search_def
      known_broken_def run_aggregate_def paraphraser_def shelf_def bindE_def returnE_def
      all_candidate_images_def visual_pass_def sort_desc_def Let_def)

lemma paraphraser_answer:
  "generate_answer paraphraser q ctx s = (''answer'', record_event (ChainCall ctx q) s)"
  by (simp add: generate_answer_def paraphraser_def shelf_def strip_def py_isspace_def)

lemma fuse_nothing: "reciprocal_rank_fusion [[], []] 15 60 = []"
  by (simp add: reciprocal_rank_fusion_def rrf_tables_of_def sort_desc_def Let_def)

lemma paraphraser_fusion:
  "fusion_rag_pipeline paraphraser grinder_query None init_handler
     = (Inr \<lparr>r_answer = ''answer'', r_images = [], r_relevance_score = None, r_entities = None,
             r_queries = Some [''rotary tool'', ''grinder''], r_mode = None\<rparr>,
        \<lparr>broken_filters = {''category''},
         trace = [LLMCall Paraphrase (generate_queries_prompt grinder_query),
                  CtxSearch ''rotary tool'' 10 None,
                  Aggregate Unified_nodes
                    \<lparr>sp_index = ''vector_index'', sp_path = ''embedding'', sp_queryVector = [1, 0],
                     sp_numCandidates = 100, sp_limit = 10, sp_filter = None\<rparr>,
                  CtxSearch ''grinder'' 10 None,
                  Aggregate Unified_nodes
                    \<lparr>sp_index = ''vector_index'', sp_path = ''embedding'', sp_queryVector = [1, 0],
                     sp_numCandidates = 100, sp_limit = 10, sp_filter = None\<rparr>,
                  ImgSearch grinder_query None 12 (Some []),
                  Aggregate Unified_nodes
                    \<lparr>sp_index = ''unified_clip_index'', sp_path = ''related_images.clip_embedding'',
                     sp_queryVector = [1, 0], sp_numCandidates = 100, sp_limit = 20,
                     sp_filter = None\<rparr>,
                  ChainCall [] grinder_query]\<rparr>)"
  by (simp add: fusion_rag_pipeline_def Let_def grinder_category bindE_def liftE_def
      paraphraser_queries paraphraser_context paraphraser_images paraphraser_answer
      returnE_def fuse_nothing context_of_def record_event_def init_handler_def)

text \<open>
  Claim C1 fails on the code. \<^verbatim>\<open>_generate_queries\<close> appends the original query after the
  paraphrases ("Always include original"), and the pipeline then keeps the first two
  entries: with a generator that returns its three paraphrases, the two text searches are
  for the first two paraphrases and none is for the original query.
\<close>

theorem fusion_drops_original_query:
  "fst (generate_queries paraphraser grinder_query init_handler)
     = [''rotary tool'', ''grinder'', ''cutting disc'', grinder_query]
   \<and> filter is_ctx_search (trace (snd (fusion_rag_pipeline paraphraser grinder_query None init_handler)))
       = [CtxSearch ''rotary tool'' 10 None, CtxSearch ''grinder'' 10 None]
   \<and> grinder_query \<noteq> ''rotary tool'' \<and> grinder_query \<noteq> ''grinder''
   \<and> CtxSearch grinder_query 10 None
       \<notin> set (trace (snd (fusion_rag_pipeline paraphraser grinder_query None init_handler)))"
  by (simp add: paraphraser_queries paraphraser_fusion) (simp add: grinder_query_def)

lemma liftE_InrD: "liftE m s = (Inr x, s1) \<Longrightarrow> m s = (x, s1)"
  by (auto simp: liftE_def split: prod.splits)

lemma returnE_InrD: "returnE x s = (Inr y, s') \<Longrightarrow> y = x \<and> s' = s"
  by (simp add: returnE_def)

text \<open>
  Claim C3. Take a run of the Corrective pipeline that returns a result. Its first pass
  yields documents and their relevance score is computed once; the result reports that
  score. If the score is below 0.7, what the engine does after scoring is exactly: one
  rewrite of the query, one text search for the rewritten query of width 15 without
  category, one image search driven by the rewritten query over the first-pass documents
  merged with the second search's and deduplicated, and the answer generation. If the score
  is at least 0.7, it is exactly: one image search driven by the original query over the
  first-pass documents, and the answer generation.
\<close>

theorem corrective_single_cycle:
  assumes "corrective_rag_pipeline sv question initial_docs s = (Inr r, s')"
  shows "\<exists>docs0 s1 score s2.
           (if truthy_docs initial_docs then returnE (docs_of initial_docs)
            else retrieve_context sv question 8 (detect_category question)) s = (Inr docs0, s1)
         \<and> score_relevance sv question (context_of docs0) s1 = (score, s2)
         \<and> r_relevance_score r = Some score
         \<and> engine_calls s s2 =
             (if truthy_docs initial_docs then []
              else [CtxSearch question 8 (detect_category question)])
             @ (if strip (context_of docs0) = [] then []
                else [LLMCall Score (score_relevance_prompt question (context_of docs0))])
         \<and> (score < 0.7 \<longrightarrow>
               (\<exists>rq s3 secondary s4.
                   rewrite_query sv question s2 = (rq, s3)
                 \<and> retrieve_context sv rq 15 None s3 = (Inr secondary, s4)
                 \<and> engine_calls s2 s' =
                     [LLMCall Rewrite (rewrite_query_prompt question),
                      CtxSearch rq 15 None,
                      ImgSearch rq (detect_category question) 12
                        (Some (deduplicate_docs (docs0 @ secondary))),
                      ChainCall (context_of (take 12 (deduplicate_docs (docs0 @ secondary))))
                        question]))
         \<and> (\<not> score < 0.7 \<longrightarrow>
               engine_calls s2 s' =
                 [ImgSearch question (detect_category question) 12 (Some docs0),
                  ChainCall (context_of (take 12 docs0)) question])"
proof -
  let ?cat = "detect_category question"
  let ?first = "if truthy_docs initial_docs then returnE (docs_of initial_docs)
                else retrieve_context sv question 8 ?cat"
  from assms [unfolded corrective_rag_pipeline_def Let_def]
  obtain docs0 s1 where first: "?first s = (Inr docs0, s1)"
    and k1: "bindE (liftE (score_relevance sv question (context_of docs0)))
               (\<lambda>score.
                   bindE (if score < 0.7
                          then bindE (liftE (rewrite_query sv question))
                                 (\<lambda>rewritten_q.
                                    bindE (retrieve_context sv rewritten_q 15 None)
                                      (\<lambda>secondary.
                                         returnE (deduplicate_docs (docs0 @ secondary),
                                                  rewritten_q)))
                          else returnE (docs0, question))
                     (\<lambda>(context_docs, v_query).
                        bindE (retrieve_images sv v_query ?cat 12 (Some context_docs))
                          (\<lambda>images.
                             bindE (liftE (generate_answer sv question (context_of (take 12 context_docs))))
                               (\<lambda>answer.
                                  returnE \<lparr>r_answer = answer, r_images = images,
                                           r_relevance_score = Some score, r_entities = None,
                                           r_queries = None, r_mode = None\<rparr>)))) s1 = (Inr r, s')"
    by (blast dest: bindE_InrD)
  from bindE_InrD [OF k1] obtain score s2 where
    sc0: "liftE (score_relevance sv question (context_of docs0)) s1 = (Inr score, s2)"
    and k2: "bindE (if score < 0.7
                          then bindE (liftE (rewrite_query sv question))
                                 (\<lambda>rewritten_q.
                                    bindE (retrieve_context sv rewritten_q 15 None)
                                      (\<lambda>secondary.
                                         returnE (deduplicate_docs (docs0 @ secondary),
                                                  rewritten_q)))
                          else returnE (docs0, question))
                     (\<lambda>(context_docs, v_query).
                        bindE (retrieve_images sv v_query ?cat 12 (Some context_docs))
                          (\<lambda>images.
                             bindE (liftE (generate_answer sv question (context_of (take 12 context_docs))))
                               (\<lambda>answer.
                                  returnE \<lparr>r_answer = answer, r_images = images,
                                           r_relevance_score = Some score, r_entities = None,
                                           r_queries = None, r_mode = None\<rparr>))) s2 = (Inr r, s')"
    by blast
  have sc: "score_relevance sv question (context_of docs0) s1 = (score, s2)"
    by (rule liftE_InrD [OF sc0])
  from bindE_InrD [OF k2] obtain p s5 where
    mid: "(if score < 0.7
           then bindE (liftE (rewrite_query sv question))
                  (\<lambda>rewritten_q.
                     bindE (retrieve_context sv rewritten_q 15 None)
                       (\<lambda>secondary. returnE (deduplicate_docs (docs0 @ secondary), rewritten_q)))
           else returnE (docs0, question)) s2 = (Inr p, s5)"
    and k3: "(case p of (context_docs, v_query) \<Rightarrow>
                bindE (retrieve_images sv v_query ?cat 12 (Some context_docs))
                  (\<lambda>images.
                     bindE (liftE (generate_answer sv question (context_of (take 12 context_docs))))
                       (\<lambda>answer.
                          returnE \<lparr>r_answer = answer, r_images = images,
                                   r_relevance_score = Some score, r_entities = None,
                                   r_queries = None, r_mode = None\<rparr>))) s5 = (Inr r, s')"
    by blast
  obtain docs vq where p: "p = (docs, vq)" by (cases p)
  from k3 [unfolded p prod.case] have k3':
    "bindE (retrieve_images sv vq ?cat 12 (Some docs))
       (\<lambda>images.
          bindE (liftE (generate_answer sv question (context_of (take 12 docs))))
            (\<lambda>answer.
               returnE \<lparr>r_answer = answer, r_images = images,
                        r_relevance_score = Some score, r_entities = None,
                        r_queries = None, r_mode = None\<rparr>)) s5 = (Inr r, s')" .
  from bindE_InrD [OF k3'] obtain images s6 where
    img: "retrieve_images sv vq ?cat 12 (Some docs) s5 = (Inr images, s6)"
    and k4: "bindE (liftE (generate_answer sv question (context_of (take 12 docs))))
            (\<lambda>answer.
               returnE \<lparr>r_answer = answer, r_images = images,
                        r_relevance_score = Some score, r_entities = None,
                        r_queries = None, r_mode = None\<rparr>) s6 = (Inr r, s')"
    by blast
  from bindE_InrD [OF k4] obtain answer s7 where
    ans0: "liftE (generate_answer sv question (context_of (take 12 docs))) s6 = (Inr answer, s7)"
    and ret: "returnE \<lparr>r_answer = answer, r_images = images,
                        r_relevance_score = Some score, r_entities = None,
                        r_queries = None, r_mode = None\<rparr> s7 = (Inr r, s')"
    by blast
  have ans: "generate_answer sv question (context_of (take 12 docs)) s6 = (answer, s')"
    using liftE_InrD [OF ans0] returnE_InrD [OF ret] by simp
  have rscore: "r_relevance_score r = Some score"
    using returnE_InrD [OF ret] by simp
  have t1: "\<exists>e1. trace s1 = trace s @ e1
      \<and> filter (\<lambda>e. \<not> is_aggregate e) e1
          = (if truthy_docs initial_docs then [] else [CtxSearch question 8 ?cat])"
  proof (cases "truthy_docs initial_docs")
    case True
    then show ?thesis using first by (simp add: returnE_def)
  next
    case False
    with first have "retrieve_context sv question 8 ?cat s = (Inr docs0, s1)" by simp
    from retrieve_context_trace [OF this] show ?thesis using False by auto
  qed
  have t2: "trace s2 = trace s1 @ (if strip (context_of docs0) = [] then []
                else [LLMCall Score (score_relevance_prompt question (context_of docs0))])"
    by (rule score_relevance_trace [OF sc])
  have pre: "engine_calls s s2 =
             (if truthy_docs initial_docs then [] else [CtxSearch question 8 ?cat])
             @ (if strip (context_of docs0) = [] then []
                else [LLMCall Score (score_relevance_prompt question (context_of docs0))])"
  proof -
    from t1 obtain e1 where e1: "trace s1 = trace s @ e1"
      "filter (\<lambda>e. \<not> is_aggregate e) e1
          = (if truthy_docs initial_docs then [] else [CtxSearch question 8 ?cat])"
      by blast
    have "trace s2 = trace s @ (e1 @ (if strip (context_of docs0) = [] then []
                else [LLMCall Score (score_relevance_prompt question (context_of docs0))]))"
      using e1(1) t2 by simp
    from engine_calls_append [OF this] show ?thesis using e1(2) by simp
  qed
  obtain a3 where t6: "trace s6 = trace s5 @ ImgSearch vq ?cat 12 (Some docs) # a3"
    "list_all is_aggregate a3"
    using retrieve_images_trace [OF img] by blast
  have t7: "trace s' = trace s6 @ [ChainCall (context_of (take 12 docs)) question]"
    by (rule generate_answer_trace [OF ans])
  have low: "\<exists>rq s3 secondary s4.
                   rewrite_query sv question s2 = (rq, s3)
                 \<and> retrieve_context sv rq 15 None s3 = (Inr secondary, s4)
                 \<and> engine_calls s2 s' =
                     [LLMCall Rewrite (rewrite_query_prompt question),
                      CtxSearch rq 15 None,
                      ImgSearch rq ?cat 12 (Some (deduplicate_docs (docs0 @ secondary))),
                      ChainCall (context_of (take 12 (deduplicate_docs (docs0 @ secondary))))
                        question]"
    if lt: "score < 0.7"
  proof -
    from mid lt have m: "bindE (liftE (rewrite_query sv question))
                  (\<lambda>rewritten_q.
                     bindE (retrieve_context sv rewritten_q 15 None)
                       (\<lambda>secondary. returnE (deduplicate_docs (docs0 @ secondary), rewritten_q)))
                  s2 = (Inr p, s5)"
      by simp
    from bindE_InrD [OF m] obtain rq s3 where
      rq0: "liftE (rewrite_query sv question) s2 = (Inr rq, s3)"
      and m2: "bindE (retrieve_context sv rq 15 None)
                 (\<lambda>secondary. returnE (deduplicate_docs (docs0 @ secondary), rq)) s3 = (Inr p, s5)"
      by blast
    have rq: "rewrite_query sv question s2 = (rq, s3)" by (rule liftE_InrD [OF rq0])
    from bindE_InrD [OF m2] obtain secondary s4 where
      sec: "retrieve_context sv rq 15 None s3 = (Inr secondary, s4)"
      and m3: "returnE (deduplicate_docs (docs0 @ secondary), rq) s4 = (Inr p, s5)"
      by blast
    from returnE_InrD [OF m3] p have pd: "docs = deduplicate_docs (docs0 @ secondary)" "vq = rq" "s5 = s4"
      by simp_all
    have t3: "trace s3 = trace s2 @ [LLMCall Rewrite (rewrite_query_prompt question)]"
      by (rule rewrite_query_trace [OF rq])
    obtain a2 where t4: "trace s4 = trace s3 @ CtxSearch rq 15 None # a2" "list_all is_aggregate a2"
      using retrieve_context_trace [OF sec] by blast
    have "trace s' = trace s2 @ ([LLMCall Rewrite (rewrite_query_prompt question)]
              @ CtxSearch rq 15 None # a2
              @ ImgSearch vq ?cat 12 (Some docs) # a3
              @ [ChainCall (context_of (take 12 docs)) question])"
      using t3 t4(1) t6(1) t7 pd(3) by simp
    from engine_calls_append [OF this]
    have "engine_calls s2 s' =
            [LLMCall Rewrite (rewrite_query_prompt question), CtxSearch rq 15 None,
             ImgSearch vq ?cat 12 (Some docs), ChainCall (context_of (take 12 docs)) question]"
      using t4(2) t6(2) by simp
    then show ?thesis using rq sec pd by blast
  qed
  have high: "engine_calls s2 s' =
                 [ImgSearch question ?cat 12 (Some docs0),
                  ChainCall (context_of (take 12 docs0)) question]"
    if ge: "\<not> score < 0.7"
  proof -
    from mid ge have "returnE (docs0, question) s2 = (Inr p, s5)" by simp
    from returnE_InrD [OF this] p have pd: "docs = docs0" "vq = question" "s5 = s2"
      by simp_all
    have "trace s' = trace s2 @ (ImgSearch vq ?cat 12 (Some docs) # a3
              @ [ChainCall (context_of (take 12 docs)) question])"
      using t6(1) t7 pd(3) by simp
    from engine_calls_append [OF this] show ?thesis
      using t6(2) pd by simp
  qed
  show ?thesis using first sc rscore pre low high by blast
qed

lemma judge_answers: "backend_answers (judge verdict)"
  by (simp add: backend_answers_def judge_def shelf_def)

lemma short_query_category: "detect_category short_query = Some ''automotive''"
  by (simp add: detect_category_def short_query_def category_keywords_def lower_def
      to_lower_def ascii_uppercase_def ascii_lowercase_def)

lemma judge_first:
  "retrieve_context (judge verdict) short_query 8 (Some ''automotive'') init_handler
     = (Inr [doc_a], judged_first verdict)"
proof -
  have "fst (retrieve_context (judge verdict) short_query 8 (Some ''automotive'') init_handler)
          = Inr [doc_a]"
    by (simp add: retrieve_context_def unified_search_def execute_resilient_search_def
        known_broken_def init_handler_def record_event_def manual_fallback_def bindE_def
        run_aggregate_def returnE_def judge_def shelf_def matches_filter_def doc_get_def
        doc_a_def doc_b_def)
  then show ?thesis by (simp add: judged_first_def prod_eq_iff)
qed

lemma judge_context: "context_of [doc_a] = ''torque wrench''"
  by (simp add: context_of_def doc_a_def)

lemma judge_prompt: "prefix ''Rate'' (score_relevance_prompt q ctx)"
  by (simp add: score_relevance_prompt_def)

lemma judge_rewrite_prompt: "\<not> prefix ''Rate'' (rewrite_query_prompt q)"
  by (simp add: rewrite_query_prompt_def)

lemma judge_score:
  assumes "findall_scores (strip verdict) = [m]"
  shows "score_relevance (judge verdict) short_query (context_of [doc_a]) (judged_first verdict)
           = (float_of_score m, judged_scored verdict)"
proof -
  have "strip ''torque wrench'' \<noteq> []" by (simp add: strip_def py_isspace_def)
  then have "fst (score_relevance (judge verdict) short_query (context_of [doc_a]) (judged_first verdict))
          = float_of_score m"
    using assms by (simp add: score_relevance_def llm_call_def judge_def judge_context judge_prompt)
  then show ?thesis by (simp add: judged_scored_def prod_eq_iff)
qed

lemma verdict_low: "findall_scores (strip ''Relevance: 0.4'') = [''0.4'']"
  by (simp add: strip_def py_isspace_def match_score_at_def is_digit_def digits_def)

lemma verdict_high: "findall_scores (strip ''0.85'') = [''0.85'']"
  by (simp add: strip_def py_isspace_def match_score_at_def is_digit_def digits_def)

lemma verdict_values: "float_of_score ''0.4'' = 0.4" "float_of_score ''0.85'' = 0.85"
  by (simp_all add: float_of_score_def digit_val_def digits_def)

lemma judge_rewrite:
  "rewrite_query (judge verdict) short_query (judged_scored verdict)
     = (''torque wrench 2440 Nm'', judged_rewritten verdict)"
proof -
  have "fst (rewrite_query (judge verdict) short_query (judged_scored verdict))
          = ''torque wrench 2440 Nm''"
    by (simp add: rewrite_query_def llm_call_def judge_def judge_rewrite_prompt strip_def
        py_isspace_def)
  then show ?thesis by (simp add: judged_rewritten_def prod_eq_iff)
qed

lemma judge_second:
  "retrieve_context (judge verdict) ''torque wrench 2440 Nm'' 15 None (judged_rewritten verdict)
     = (Inr [doc_a, doc_b], judged_second verdict)"
proof -
  have "fst (retrieve_context (judge verdict) ''torque wrench 2440 Nm'' 15 None (judged_rewritten verdict))
          = Inr [doc_a, doc_b]"
    by (simp add: retrieve_context_def unified_search_def execute_resilient_search_def
        known_broken_def run_aggregate_def judge_def shelf_def)
  then show ?thesis by (simp add: judged_second_def prod_eq_iff)
qed

lemma judge_merged: "deduplicate_docs ([doc_a] @ [doc_a, doc_b]) = [doc_a, doc_b]"
  by (simp add: deduplicate_docs_def doc_key_def doc_a_def doc_b_def)

theorem corrective_single_cycle_witness:
  "(\<exists>r s'. corrective_rag_pipeline (judge ''Relevance: 0.4'') short_query None init_handler = (Inr r, s')
       \<and> r_relevance_score r = Some 0.4
       \<and> engine_calls init_handler (judged_scored ''Relevance: 0.4'')
           = [CtxSearch short_query 8 (Some ''automotive''),
              LLMCall Score (score_relevance_prompt short_query ''torque wrench'')]
       \<and> engine_calls (judged_scored ''Relevance: 0.4'') s'
           = [LLMCall Rewrite (rewrite_query_prompt short_query),
              CtxSearch ''torque wrench 2440 Nm'' 15 None,
              ImgSearch ''torque wrench 2440 Nm'' (Some ''automotive'') 12 (Some [doc_a, doc_b]),
              ChainCall (context_of (take 12 [doc_a, doc_b])) short_query])
   \<and> (\<exists>r s'. corrective_rag_pipeline (judge ''0.85'') short_query None init_handler = (Inr r, s')
       \<and> r_relevance_score r = Some 0.85
       \<and> engine_calls (judged_scored ''0.85'') s'
           = [ImgSearch short_query (Some ''automotive'') 12 (Some [doc_a]),
              ChainCall (context_of (take 12 [doc_a])) short_query])"
proof (rule conjI)
  let ?v = "''Relevance: 0.4''"
  obtain r s' where run: "corrective_rag_pipeline (judge ?v) short_query None init_handler = (Inr r, s')"
    using corrective_answers [OF judge_answers] by blast
  from corrective_single_cycle [OF run] obtain docs0 s1 score s2 where
    first: "(if truthy_docs None then returnE (docs_of None)
             else retrieve_context (judge ?v) short_query 8 (detect_category short_query))
              init_handler = (Inr docs0, s1)"
    and sc: "score_relevance (judge ?v) short_query (context_of docs0) s1 = (score, s2)"
    and rs: "r_relevance_score r = Some score"
    and pre: "engine_calls init_handler s2 =
             (if truthy_docs None then []
              else [CtxSearch short_query 8 (detect_category short_query)])
             @ (if strip (context_of docs0) = [] then []
                else [LLMCall Score (score_relevance_prompt short_query (context_of docs0))])"
    and low: "score < 0.7 \<longrightarrow>
               (\<exists>rq s3 secondary s4.
                   rewrite_query (judge ?v) short_query s2 = (rq, s3)
                 \<and> retrieve_context (judge ?v) rq 15 None s3 = (Inr secondary, s4)
                 \<and> engine_calls s2 s' =
                     [LLMCall Rewrite (rewrite_query_prompt short_query),
                      CtxSearch rq 15 None,
                      ImgSearch rq (detect_category short_query) 12
                        (Some (deduplicate_docs (docs0 @ secondary))),
                      ChainCall (context_of (take 12 (deduplicate_docs (docs0 @ secondary))))
                        short_query])"
    by blast
  from first have d: "docs0 = [doc_a]" "s1 = judged_first ?v"
    by (simp_all add: short_query_category judge_first)
  from sc have v: "score = 0.4" "s2 = judged_scored ?v"
    by (simp_all add: d judge_score [OF verdict_low] verdict_values)
  have "score < 0.7" using v(1) by simp
  with low v(2) obtain rq s3 secondary s4 where
    rq: "rewrite_query (judge ?v) short_query (judged_scored ?v) = (rq, s3)"
    and sec: "retrieve_context (judge ?v) rq 15 None s3 = (Inr secondary, s4)"
    and calls: "engine_calls (judged_scored ?v) s' =
                     [LLMCall Rewrite (rewrite_query_prompt short_query),
                      CtxSearch rq 15 None,
                      ImgSearch rq (detect_category short_query) 12
                        (Some (deduplicate_docs (docs0 @ secondary))),
                      ChainCall (context_of (take 12 (deduplicate_docs (docs0 @ secondary))))
                        short_query]"
    by blast
  from rq have q: "rq = ''torque wrench 2440 Nm''" "s3 = judged_rewritten ?v"
    by (simp_all add: judge_rewrite)
  from sec have e: "secondary = [doc_a, doc_b]"
    by (simp add: q judge_second)
  have nonblank: "strip ''torque wrench'' \<noteq> []" by (simp add: strip_def py_isspace_def)
  have "engine_calls init_handler (judged_scored ?v)
           = [CtxSearch short_query 8 (Some ''automotive''),
              LLMCall Score (score_relevance_prompt short_query ''torque wrench'')]"
    using pre nonblank by (simp add: v d short_query_category judge_context)
  moreover have "engine_calls (judged_scored ?v) s'
           = [LLMCall Rewrite (rewrite_query_prompt short_query),
              CtxSearch ''torque wrench 2440 Nm'' 15 None,
              ImgSearch ''torque wrench 2440 Nm'' (Some ''automotive'') 12 (Some [doc_a, doc_b]),
              ChainCall (context_of (take 12 [doc_a, doc_b])) short_query]"
    using calls judge_merged by (simp add: q e d short_query_category)
  ultimately show "\<exists>r s'. corrective_rag_pipeline (judge ?v) short_query None init_handler = (Inr r, s')
       \<and> r_relevance_score r = Some 0.4
       \<and> engine_calls init_handler (judged_scored ?v)
           = [CtxSearch short_query 8 (Some ''automotive''),
              LLMCall Score (score_relevance_prompt short_query ''torque wrench'')]
       \<and> engine_calls (judged_scored ?v) s'
           = [LLMCall Rewrite (rewrite_query_prompt short_query),
              CtxSearch ''torque wrench 2440 Nm'' 15 None,
              ImgSearch ''torque wrench 2440 Nm'' (Some ''automotive'') 12 (Some [doc_a, doc_b]),
              ChainCall (context_of (take 12 [doc_a, doc_b])) short_query]"
    using run rs v(1) by blast
next
  let ?v = "''0.85''"
  obtain r s' where run: "corrective_rag_pipeline (judge ?v) short_query None init_handler = (Inr r, s')"
    using corrective_answers [OF judge_answers] by blast
  from corrective_single_cycle [OF run] obtain docs0 s1 score s2 where
    first: "(if truthy_docs None then returnE (docs_of None)
             else retrieve_context (judge ?v) short_query 8 (detect_category short_query))
              init_handler = (Inr docs0, s1)"
    and sc: "score_relevance (judge ?v) short_query (context_of docs0) s1 = (score, s2)"
    and rs: "r_relevance_score r = Some score"
    and high: "\<not> score < 0.7 \<longrightarrow>
               engine_calls s2 s' =
                 [ImgSearch short_query (detect_category short_query) 12 (Some docs0),
                  ChainCall (context_of (take 12 docs0)) short_query]"
    by blast
  from first have d: "docs0 = [doc_a]" "s1 = judged_first ?v"
    by (simp_all add: short_query_category judge_first)
  from sc have v: "score = 0.85" "s2 = judged_scored ?v"
    by (simp_all add: d judge_score [OF verdict_high] verdict_values)
  have "\<not> score < 0.7" using v(1) by simp
  with high v(2) have "engine_calls (judged_scored ?v) s'
           = [ImgSearch short_query (Some ''automotive'') 12 (Some [doc_a]),
              ChainCall (context_of (take 12 [doc_a])) short_query]"
    by (simp add: d short_query_category)
  then show "\<exists>r s'. corrective_rag_pipeline (judge ?v) short_query None init_handler = (Inr r, s')
       \<and> r_relevance_score r = Some 0.85
       \<and> engine_calls (judged_scored ?v) s'
           = [ImgSearch short_query (Some ''automotive'') 12 (Some [doc_a]),
              ChainCall (context_of (take 12 [doc_a])) short_query]"
    using run rs v(1) by blast
qed

end
